theory Spec2Isabelle
  imports Complex_Main "HOL-Library.Code_Target_Numeral"
begin

section \<open>Data model\<close>

text \<open>
  The device API is an external collaborator: contexts, devices, command queues,
  buffers, events, programs and kernels are handles, modelled as natural numbers.
  A C++ element type (the template argument \<open>T\<close> of \<open>vector<T>\<close>, or the arithmetic
  type of a scalar operand) is identified by its C++ name.
\<close>

type_synonym ctype = string
type_synonym cl_context = nat
type_synonym cl_device = nat
type_synonym cl_queue = nat
type_synonym cl_buffer = nat
type_synonym cl_event = nat
type_synonym cl_program = nat
type_synonym cl_kernel = nat

text \<open>
  Errors as values: \<open>UnknownOperation\<close> is the string thrown by
  \<open>BinaryExpression::kernel_name\<close>, \<open>DeviceError\<close> is an exception raised by the
  device API, \<open>OutOfRange\<close> marks a read past the end of a \<open>std::vector\<close> or a
  floating-point value that cannot be converted to \<open>size_t\<close> (undefined behaviour in
  the source).
\<close>

datatype error = UnknownOperation | DeviceError | OutOfRange

text \<open>
  \<open>vex::vector<T>\<close>: the four private members, and the template argument \<open>T\<close> as the
  field \<open>vtype\<close>.
\<close>

record vector =
  vtype :: ctype
  queue :: "cl_queue list"
  part :: "nat list"
  buf :: "cl_buffer list"
  event :: "cl_event list"

text \<open>
  An expression tree. The source builds it in the type system: \<open>Vec\<close> is a
  \<open>vector<T>\<close> leaf, \<open>Scal\<close> is an arithmetic value behind the
  \<open>KernelGenerator\<close> specialisation for arithmetic types, \<open>Binary lhs OP rhs\<close> is
  \<open>BinaryExpression<LHS, OP, RHS>\<close> with its operator character.
\<close>

datatype 'c expr =
    Vec vector
  | Scal ctype 'c
  | Binary "'c expr" char "'c expr"

section \<open>Kernel names\<close>

text \<open>
  \<open>"p" + lhs.kernel_name() + rhs.kernel_name()\<close>: either operand may throw, and the
  exception propagates.
\<close>

definition cat_names :: "string \<Rightarrow> error + string \<Rightarrow> error + string \<Rightarrow> error + string" where
  "cat_names tok l r =
     (case l of
        Inl e \<Rightarrow> Inl e
      | Inr a \<Rightarrow> (case r of Inl e \<Rightarrow> Inl e | Inr b \<Rightarrow> Inr (tok @ a @ b)))"

fun kernel_name :: "'c expr \<Rightarrow> error + string" where
  "kernel_name (Vec v) = Inr ''v''"
| "kernel_name (Scal t c) = Inr ''c''"
| "kernel_name (Binary lhs OP rhs) =
     (if OP = CHR ''+'' then cat_names ''p'' (kernel_name lhs) (kernel_name rhs)
      else if OP = CHR ''-'' then cat_names ''m'' (kernel_name lhs) (kernel_name rhs)
      else if OP = CHR ''*'' then cat_names ''t'' (kernel_name lhs) (kernel_name rhs)
      else if OP = CHR ''/'' then cat_names ''d'' (kernel_name lhs) (kernel_name rhs)
      else Inl UnknownOperation)"

text \<open>
  The shape of an expression: its tree with the data (which vector, which scalar value,
  which element type) erased.
\<close>

datatype shape = VecLeaf | ScalLeaf | BinNode shape char shape

fun shape_of :: "'c expr \<Rightarrow> shape" where
  "shape_of (Vec v) = VecLeaf"
| "shape_of (Scal t c) = ScalLeaf"
| "shape_of (Binary lhs OP rhs) = BinNode (shape_of lhs) OP (shape_of rhs)"

text \<open>The four operators for which the header defines an overload.\<close>

definition known_op :: "char \<Rightarrow> bool" where
  "known_op OP = (OP = CHR ''+'' \<or> OP = CHR ''-'' \<or> OP = CHR ''*'' \<or> OP = CHR ''/'')"

fun supported :: "'c expr \<Rightarrow> bool" where
  "supported (Vec v) = True"
| "supported (Scal t c) = True"
| "supported (Binary lhs OP rhs) = (known_op OP \<and> supported lhs \<and> supported rhs)"

text \<open>
  The token that stands for an operator in a kernel name, and (auxiliary, for the
  proofs) the name as a function of the shape.
\<close>

definition op_token :: "char \<Rightarrow> char" where
  "op_token OP =
     (if OP = CHR ''+'' then CHR ''p'' else if OP = CHR ''-'' then CHR ''m''
      else if OP = CHR ''*'' then CHR ''t'' else CHR ''d'')"

fun shape_name :: "shape \<Rightarrow> string" where
  "shape_name VecLeaf = ''v''"
| "shape_name ScalLeaf = ''c''"
| "shape_name (BinNode l OP r) = op_token OP # shape_name l @ shape_name r"

fun shape_ok :: "shape \<Rightarrow> bool" where
  "shape_ok VecLeaf = True"
| "shape_ok ScalLeaf = True"
| "shape_ok (BinNode l OP r) = (known_op OP \<and> shape_ok l \<and> shape_ok r)"

section \<open>Device vectors\<close>

text \<open>
  \<open>size_t\<close> values are natural numbers. Every subtraction below is applied to a
  partition table that is non-decreasing, where it does not wrap.
\<close>

definition nparts :: "vector \<Rightarrow> nat" where
  "nparts v = length (queue v)"

definition vsize :: "vector \<Rightarrow> nat" where
  "vsize v = (if part v = [] then 0 else last (part v))"

text \<open>
  The class invariant, established by every constructor: one buffer and one event per
  queue, and either nothing at all (the empty constructor) or a partition table with
  one more entry than there are queues, starting at 0 and non-decreasing.
\<close>

definition vector_inv :: "vector \<Rightarrow> bool" where
  "vector_inv v =
     (length (buf v) = length (queue v) \<and> length (event v) = length (queue v)
      \<and> (part v = [] \<and> queue v = []
          \<or> length (part v) = length (queue v) + 1 \<and> part v ! 0 = 0)
      \<and> sorted (part v))"

subsection \<open>Part sizes\<close>

text \<open>\<open>vector::part_size\<close>. Reading \<open>part[d + 1]\<close> past the end is undefined.\<close>

definition vector_part_size :: "vector \<Rightarrow> nat \<Rightarrow> error + nat" where
  "vector_part_size v d =
     (if d + 1 < length (part v) then Inr (part v ! (d + 1) - part v ! d)
      else Inl OutOfRange)"

fun part_size :: "'c expr \<Rightarrow> nat \<Rightarrow> error + nat" where
  "part_size (Vec v) dev = vector_part_size v dev"
| "part_size (Scal t c) dev = Inr 0"
| "part_size (Binary lhs OP rhs) dev =
     (case part_size lhs dev of
        Inl e \<Rightarrow> Inl e
      | Inr a \<Rightarrow> (case part_size rhs dev of Inl e \<Rightarrow> Inl e | Inr b \<Rightarrow> Inr (max a b)))"

subsection \<open>Element access\<close>

text \<open>
  The proxy returned by \<open>vector::operator[]\<close>: a queue, a buffer and an index local to
  that buffer.
\<close>

record element =
  el_queue :: cl_queue
  el_buf :: cl_buffer
  el_index :: nat

text \<open>
  The loop \<open>while (index >= part[d + 1] && d < nparts()) d++\<close>. The condition reads
  \<open>part[d + 1]\<close> before it tests \<open>d\<close>, so the read is past the end once \<open>d\<close> has
  reached the number of parts.
\<close>

function find_part :: "vector \<Rightarrow> nat \<Rightarrow> nat \<Rightarrow> error + nat" where
  "find_part v index d =
     (if d + 1 < length (part v) then
        (if part v ! (d + 1) \<le> index \<and> d < nparts v then find_part v index (d + 1)
         else Inr d)
      else Inl OutOfRange)"
  by pat_completeness auto
termination
  by (relation "measure (\<lambda>(v, index, d). length (part v) - d)") auto

declare find_part.simps [simp del]

definition subscript :: "vector \<Rightarrow> nat \<Rightarrow> error + element" where
  "subscript v index =
     (case find_part v index 0 of
        Inl e \<Rightarrow> Inl e
      | Inr d \<Rightarrow>
          if d < length (queue v) \<and> d < length (buf v) \<and> d < length (part v)
          then Inr \<lparr>el_queue = queue v ! d, el_buf = buf v ! d,
                    el_index = index - part v ! d\<rparr>
          else Inl OutOfRange)"

section \<open>Device memory and transfers\<close>

text \<open>
  The operations a command queue is asked to perform, in the order they are enqueued.
  Offsets and counts are in elements: the source multiplies each by \<open>sizeof(T)\<close> for the
  byte-addressed device API. A transfer carries the event that signals its completion.
\<close>

datatype cl_op =
    WriteBuffer cl_queue cl_buffer nat nat nat cl_event
  | ReadBuffer cl_queue cl_buffer nat nat nat cl_event
  | CopyBuffer cl_queue cl_buffer cl_buffer nat nat nat
  | WaitEvent cl_event

text \<open>
  The state of the devices: the contents of every allocated buffer, the operations
  issued so far, and the next unused event handle. Each queue executes in order and
  every buffer of a vector is used on the queue of its own shard only, so an operation
  takes effect on the buffer contents when it is enqueued.
\<close>

record 'a device_state =
  mem :: "cl_buffer \<Rightarrow> 'a list option"
  issued :: "cl_op list"
  next_event :: cl_event

text \<open>
  \<open>cl::CommandQueue::enqueueWriteBuffer\<close>, \<open>enqueueReadBuffer\<close> and
  \<open>enqueueCopyBuffer\<close>. The device API raises an error for a buffer that is not
  allocated, for a range outside the buffer, and for a buffer copied onto itself.
  Reading or writing the host array outside its bounds is undefined.
\<close>

definition enqueueWriteBuffer ::
  "'a device_state \<Rightarrow> cl_queue \<Rightarrow> cl_buffer \<Rightarrow> nat \<Rightarrow> nat \<Rightarrow> nat \<Rightarrow> 'a list
   \<Rightarrow> error + 'a device_state \<times> cl_event" where
  "enqueueWriteBuffer s q b off cnt hoff host =
     (case mem s b of
        None \<Rightarrow> Inl DeviceError
      | Some xs \<Rightarrow>
          if length xs < off + cnt then Inl DeviceError
          else if length host < hoff + cnt then Inl OutOfRange
          else Inr (s\<lparr>mem := (mem s)(b \<mapsto> take off xs @ take cnt (drop hoff host)
                                           @ drop (off + cnt) xs),
                      issued := issued s @ [WriteBuffer q b off cnt hoff (next_event s)],
                      next_event := Suc (next_event s)\<rparr>,
                    next_event s))"

definition enqueueReadBuffer ::
  "'a device_state \<Rightarrow> cl_queue \<Rightarrow> cl_buffer \<Rightarrow> nat \<Rightarrow> nat \<Rightarrow> nat \<Rightarrow> 'a list
   \<Rightarrow> error + 'a device_state \<times> cl_event \<times> 'a list" where
  "enqueueReadBuffer s q b off cnt hoff host =
     (case mem s b of
        None \<Rightarrow> Inl DeviceError
      | Some xs \<Rightarrow>
          if length xs < off + cnt then Inl DeviceError
          else if length host < hoff + cnt then Inl OutOfRange
          else Inr (s\<lparr>issued := issued s @ [ReadBuffer q b off cnt hoff (next_event s)],
                      next_event := Suc (next_event s)\<rparr>,
                    next_event s,
                    take hoff host @ take cnt (drop off xs) @ drop (hoff + cnt) host))"

definition enqueueCopyBuffer ::
  "'a device_state \<Rightarrow> cl_queue \<Rightarrow> cl_buffer \<Rightarrow> cl_buffer \<Rightarrow> nat \<Rightarrow> nat \<Rightarrow> nat
   \<Rightarrow> error + 'a device_state" where
  "enqueueCopyBuffer s q src dst src_off dst_off cnt =
     (case (mem s src, mem s dst) of
        (Some xs, Some ys) \<Rightarrow>
          if length xs < src_off + cnt \<or> length ys < dst_off + cnt \<or> src = dst
          then Inl DeviceError
          else Inr (s\<lparr>mem := (mem s)(dst \<mapsto> take dst_off ys @ take cnt (drop src_off xs)
                                             @ drop (dst_off + cnt) ys),
                      issued := issued s @ [CopyBuffer q src dst src_off dst_off cnt]\<rparr>)
      | _ \<Rightarrow> Inl DeviceError)"

subsection \<open>Host to device and back\<close>

text \<open>
  The first loop of \<open>vector::write_data\<close>, over the shard indices \<open>ds\<close>; the
  argument \<open>size\<close> of the source is \<open>sz\<close> here. The event of each transfer is stored
  in \<open>event[d]\<close>.
\<close>

fun write_shards ::
  "nat \<Rightarrow> nat \<Rightarrow> 'a list \<Rightarrow> 'a device_state \<Rightarrow> vector \<Rightarrow> nat list
   \<Rightarrow> error + 'a device_state \<times> vector" where
  "write_shards offset sz hostptr s v [] = Inr (s, v)"
| "write_shards offset sz hostptr s v (d # ds) =
     (let start = max offset (part v ! d);
          stop = min (offset + sz) (part v ! (d + 1))
      in if stop \<le> start then write_shards offset sz hostptr s v ds
         else (case enqueueWriteBuffer s (queue v ! d) (buf v ! d)
                      (start - part v ! d) (stop - start) (start - offset) hostptr of
                 Inl e \<Rightarrow> Inl e
               | Inr (s', ev) \<Rightarrow>
                   write_shards offset sz hostptr s' (v\<lparr>event := (event v)[d := ev]\<rparr>) ds))"

text \<open>The loop \<open>if (start < stop) event[d].wait()\<close> of both \<open>write_data\<close> and \<open>read_data\<close>.\<close>

fun wait_shards :: "nat \<Rightarrow> nat \<Rightarrow> 'a device_state \<Rightarrow> vector \<Rightarrow> nat list \<Rightarrow> 'a device_state" where
  "wait_shards offset sz s v [] = s"
| "wait_shards offset sz s v (d # ds) =
     (let start = max offset (part v ! d);
          stop = min (offset + sz) (part v ! (d + 1))
      in if start < stop
         then wait_shards offset sz (s\<lparr>issued := issued s @ [WaitEvent (event v ! d)]\<rparr>) v ds
         else wait_shards offset sz s v ds)"

definition write_data ::
  "'a device_state \<Rightarrow> vector \<Rightarrow> nat \<Rightarrow> nat \<Rightarrow> 'a list \<Rightarrow> bool
   \<Rightarrow> error + 'a device_state \<times> vector" where
  "write_data s v offset sz hostptr blocking =
     (if sz = 0 then Inr (s, v)
      else (case write_shards offset sz hostptr s v [0..<length (queue v)] of
              Inl e \<Rightarrow> Inl e
            | Inr (s', v') \<Rightarrow>
                if blocking
                then Inr (wait_shards offset sz s' v' [0..<length (queue v')], v')
                else Inr (s', v')))"

text \<open>
  \<open>vector::read_data\<close>; the host array it fills is returned with the new state and the
  vector, whose \<open>event\<close> member is \<open>mutable\<close>.
\<close>

fun read_shards ::
  "nat \<Rightarrow> nat \<Rightarrow> 'a list \<Rightarrow> 'a device_state \<Rightarrow> vector \<Rightarrow> nat list
   \<Rightarrow> error + 'a device_state \<times> vector \<times> 'a list" where
  "read_shards offset sz hostptr s v [] = Inr (s, v, hostptr)"
| "read_shards offset sz hostptr s v (d # ds) =
     (let start = max offset (part v ! d);
          stop = min (offset + sz) (part v ! (d + 1))
      in if stop \<le> start then read_shards offset sz hostptr s v ds
         else (case enqueueReadBuffer s (queue v ! d) (buf v ! d)
                      (start - part v ! d) (stop - start) (start - offset) hostptr of
                 Inl e \<Rightarrow> Inl e
               | Inr (s', ev, hostptr') \<Rightarrow>
                   read_shards offset sz hostptr' s' (v\<lparr>event := (event v)[d := ev]\<rparr>) ds))"

definition read_data ::
  "'a device_state \<Rightarrow> vector \<Rightarrow> nat \<Rightarrow> nat \<Rightarrow> 'a list \<Rightarrow> bool
   \<Rightarrow> error + 'a device_state \<times> vector \<times> 'a list" where
  "read_data s v offset sz hostptr blocking =
     (if sz = 0 then Inr (s, v, hostptr)
      else (case read_shards offset sz hostptr s v [0..<length (queue v)] of
              Inl e \<Rightarrow> Inl e
            | Inr (s', v', hostptr') \<Rightarrow>
                if blocking
                then Inr (wait_shards offset sz s' v' [0..<length (queue v')], v', hostptr')
                else Inr (s', v', hostptr')))"

text \<open>
  What \<open>allocate_buffers\<close> leaves behind: every shard of non-zero length has a buffer of
  its own, of the shard's length.
\<close>

definition buffers_allocated :: "'a device_state \<Rightarrow> vector \<Rightarrow> bool" where
  "buffers_allocated s v =
     ((\<forall>d < nparts v. part v ! d < part v ! (d + 1) \<longrightarrow>
         (\<exists>xs. mem s (buf v ! d) = Some xs \<and> length xs = part v ! (d + 1) - part v ! d))
      \<and> (\<forall>d < nparts v. \<forall>d' < nparts v.
           part v ! d < part v ! (d + 1) \<and> part v ! d' < part v ! (d' + 1) \<and> d \<noteq> d'
           \<longrightarrow> buf v ! d \<noteq> buf v ! d'))"

text \<open>
  The shards that a range \<open>[offset, offset + sz)\<close> meets, and the transfer a call is
  expected to issue for such a shard: the part of the range that lies in the shard, at
  its place in the shard's buffer and in the host array. \<open>transfer_of\<close> reads a
  transfer off the log with its event handle blanked, \<open>event_of\<close> reads the handle,
  \<open>waited\<close> the handle a wait is for.
\<close>

definition shard_meets :: "nat \<Rightarrow> nat \<Rightarrow> vector \<Rightarrow> nat \<Rightarrow> bool" where
  "shard_meets offset sz v d =
     ({offset ..< offset + sz} \<inter> {part v ! d ..< part v ! (d + 1)} \<noteq> {})"

fun transfer_of :: "cl_op \<Rightarrow> cl_op option" where
  "transfer_of (WriteBuffer q b off cnt hoff ev) = Some (WriteBuffer q b off cnt hoff 0)"
| "transfer_of (ReadBuffer q b off cnt hoff ev) = Some (ReadBuffer q b off cnt hoff 0)"
| "transfer_of _ = None"

definition expected_write :: "nat \<Rightarrow> nat \<Rightarrow> vector \<Rightarrow> nat \<Rightarrow> cl_op" where
  "expected_write offset sz v d =
     WriteBuffer (queue v ! d) (buf v ! d)
       (max offset (part v ! d) - part v ! d)
       (min (offset + sz) (part v ! (d + 1)) - max offset (part v ! d))
       (max offset (part v ! d) - offset) 0"

definition expected_read :: "nat \<Rightarrow> nat \<Rightarrow> vector \<Rightarrow> nat \<Rightarrow> cl_op" where
  "expected_read offset sz v d =
     ReadBuffer (queue v ! d) (buf v ! d)
       (max offset (part v ! d) - part v ! d)
       (min (offset + sz) (part v ! (d + 1)) - max offset (part v ! d))
       (max offset (part v ! d) - offset) 0"

fun event_of :: "cl_op \<Rightarrow> cl_event option" where
  "event_of (WriteBuffer q b off cnt hoff ev) = Some ev"
| "event_of (ReadBuffer q b off cnt hoff ev) = Some ev"
| "event_of _ = None"

fun waited :: "cl_op \<Rightarrow> cl_event option" where
  "waited (WaitEvent ev) = Some ev"
| "waited _ = None"

subsection \<open>Copy assignment\<close>

text \<open>
  \<open>vector::operator=(const vector &x)\<close>. The test \<open>&x != this\<close> compares addresses, so
  the two vectors are given as addresses into a store of vector objects. No member of
  either vector is assigned; the store is returned as it was passed.
\<close>

fun copy_shards :: "'a device_state \<Rightarrow> vector \<Rightarrow> vector \<Rightarrow> nat list \<Rightarrow> error + 'a device_state" where
  "copy_shards s this x [] = Inr s"
| "copy_shards s this x (d # ds) =
     (let psize = part this ! (d + 1) - part this ! d
      in if psize \<noteq> 0
         then (case enqueueCopyBuffer s (queue this ! d) (buf x ! d) (buf this ! d) 0 0 psize of
                 Inl e \<Rightarrow> Inl e
               | Inr s' \<Rightarrow> copy_shards s' this x ds)
         else copy_shards s this x ds)"

definition copy_assign ::
  "'a device_state \<Rightarrow> (nat \<Rightarrow> vector option) \<Rightarrow> nat \<Rightarrow> nat
   \<Rightarrow> error + 'a device_state \<times> (nat \<Rightarrow> vector option)" where
  "copy_assign s objs this x =
     (case (objs this, objs x) of
        (Some tv, Some xv) \<Rightarrow>
          if x \<noteq> this
          then (case copy_shards s tv xv [0..<length (queue tv)] of
                  Inl e \<Rightarrow> Inl e
                | Inr s' \<Rightarrow> Inr (s', objs))
          else Inr (s, objs)
      | _ \<Rightarrow> Inl OutOfRange)"

text \<open>
  The copy \<open>operator=\<close> is expected to enqueue for shard \<open>d\<close>, and (auxiliary, for the
  proofs) a buffer that is allocated with room for \<open>n\<close> elements.
\<close>

definition expected_copy :: "vector \<Rightarrow> vector \<Rightarrow> nat \<Rightarrow> cl_op" where
  "expected_copy this x d =
     CopyBuffer (queue this ! d) (buf x ! d) (buf this ! d) 0 0 (part this ! (d + 1) - part this ! d)"

definition fits :: "'a device_state \<Rightarrow> cl_buffer \<Rightarrow> nat \<Rightarrow> bool" where
  "fits s b n = (\<exists>xs. mem s b = Some xs \<and> n \<le> length xs)"

section \<open>Partitioning by measured performance\<close>

text \<open>
  Modelled from the spec: \<open>alignup\<close> is defined in \<open>vexcl/util.hpp\<close>, which is not
  part of the sources. It rounds its first argument up to a multiple of its second; the
  default of the second argument is the parameter \<open>m\<close> of
  \<open>partition_by_vector_perf\<close> below. Its arguments and its result are \<open>size_t\<close>, so
  the rounded value is taken modulo \<open>2 ^ 64\<close>.
\<close>

definition alignup :: "nat \<Rightarrow> nat \<Rightarrow> nat" where
  "alignup n m = (((n + m - 1) div m) * m) mod 2 ^ 64"

subsection \<open>Double-precision arithmetic\<close>

text \<open>
  The weights and the running sums are \<open>double\<close>s: IEEE 754 binary64 with rounding to
  nearest, ties to even. \<open>rne\<close> rounds a rational to the nearest integer, ties to the
  even one. \<open>exponent x\<close> is the binary exponent of the format's interval that holds
  \<open>x\<close>: the first \<open>e\<close> from \<open>-1022\<close> to \<open>1023\<close> with \<open>\<bar>x\<bar> < 2 ^ (e + 1)\<close>, so that
  subnormal numbers share the exponent \<open>-1022\<close>, and \<open>1024\<close> past the format's range.
  Neighbouring numbers of that interval are \<open>ulp x\<close> apart (53 significant bits), and
  \<open>round_double x\<close> is the multiple of \<open>ulp x\<close> nearest to \<open>x\<close>.
\<close>

definition rne :: "rat \<Rightarrow> int" where
  "rne y = (let f = \<lfloor>y\<rfloor>; r = y - of_int f in
     if r < 1 / 2 then f else if 1 / 2 < r then f + 1 else if even f then f else f + 1)"

definition emin :: int where
  "emin = - 1022"

definition emax :: int where
  "emax = 1023"

definition exponent :: "rat \<Rightarrow> int" where
  "exponent x =
     (case find (\<lambda>e. \<bar>x\<bar> < 2 powi (e + 1)) [emin..emax] of Some e \<Rightarrow> e | None \<Rightarrow> emax + 1)"

definition ulp :: "rat \<Rightarrow> rat" where
  "ulp x = 2 powi (exponent x - 52)"

definition round_double :: "rat \<Rightarrow> rat" where
  "round_double x = of_int (rne (x / ulp x)) * ulp x"

definition finite_double :: "rat \<Rightarrow> bool" where
  "finite_double x = (\<bar>x\<bar> < 2 powi (emax + 1))"

text \<open>
  A \<open>double\<close> is a finite number, an infinity (\<open>Infinity True\<close> is the negative one)
  or a NaN. A result too large for the format becomes an infinity. The sign of a zero
  is not represented: it decides only which infinity a division by zero gives, and
  neither infinity converts to \<open>size_t\<close>.
\<close>

datatype double = Finite rat | Infinity bool | NaN

definition to_double :: "rat \<Rightarrow> double" where
  "to_double x =
     (let r = round_double x in if finite_double r then Finite r else Infinity (r < 0))"

fun dadd :: "double \<Rightarrow> double \<Rightarrow> double" where
  "dadd (Finite a) (Finite b) = to_double (a + b)"
| "dadd (Finite a) (Infinity s) = Infinity s"
| "dadd (Infinity s) (Finite b) = Infinity s"
| "dadd (Infinity s) (Infinity t) = (if s = t then Infinity s else NaN)"
| "dadd NaN y = NaN"
| "dadd x NaN = NaN"

fun dmul :: "double \<Rightarrow> double \<Rightarrow> double" where
  "dmul (Finite a) (Finite b) = to_double (a * b)"
| "dmul (Finite a) (Infinity s) = (if a = 0 then NaN else Infinity (s \<noteq> (a < 0)))"
| "dmul (Infinity s) (Finite b) = (if b = 0 then NaN else Infinity (s \<noteq> (b < 0)))"
| "dmul (Infinity s) (Infinity t) = Infinity (s \<noteq> t)"
| "dmul NaN y = NaN"
| "dmul x NaN = NaN"

fun ddiv :: "double \<Rightarrow> double \<Rightarrow> double" where
  "ddiv (Finite a) (Finite b) =
     (if b = 0 then (if a = 0 then NaN else Infinity (a < 0)) else to_double (a / b))"
| "ddiv (Finite a) (Infinity s) = Finite 0"
| "ddiv (Infinity s) (Finite b) = Infinity (s \<noteq> (b < 0))"
| "ddiv (Infinity s) (Infinity t) = NaN"
| "ddiv NaN y = NaN"
| "ddiv x NaN = NaN"

text \<open>
  The conversions between \<open>size_t\<close> and \<open>double\<close>. From \<open>size_t\<close> the value is
  rounded like any other result. To \<open>size_t\<close> the value is truncated; the conversion is
  undefined when the truncated value is not a \<open>size_t\<close>: for \<open>-1\<close> or less, for
  \<open>2 ^ 64\<close> or more, for an infinity and for a NaN.
\<close>

definition of_size_t :: "nat \<Rightarrow> double" where
  "of_size_t n = to_double (of_nat n)"

fun to_size_t :: "double \<Rightarrow> error + nat" where
  "to_size_t (Finite x) =
     (if x \<le> - 1 \<or> 2 ^ 64 \<le> x then Inl OutOfRange else Inr (nat \<lfloor>x\<rfloor>))"
| "to_size_t (Infinity s) = Inl OutOfRange"
| "to_size_t NaN = Inl OutOfRange"

subsection \<open>The partitioner\<close>

text \<open>
  The argument of \<open>alignup\<close> in \<open>alignup(n * cumsum[d + 1] / cumsum.back())\<close>: the
  product and the quotient are computed in \<open>double\<close>, and the result is converted to
  the \<open>size_t\<close> that \<open>alignup\<close> takes.
\<close>

definition share :: "nat \<Rightarrow> double \<Rightarrow> double \<Rightarrow> error + nat" where
  "share n c tot = to_size_t (ddiv (dmul (of_size_t n) c) tot)"

text \<open>
  The loop \<open>cumsum.push_back(cumsum.back() + device_vector_perf(...))\<close>; the result of
  \<open>device_vector_perf\<close> for each queue is the parameter \<open>perf\<close> of
  \<open>partition_by_vector_perf\<close>.
\<close>

fun push_cumsum :: "double list \<Rightarrow> double list \<Rightarrow> double list" where
  "push_cumsum cumsum [] = cumsum"
| "push_cumsum cumsum (w # ws) = push_cumsum (cumsum @ [dadd (last cumsum) w]) ws"

text \<open>
  The loop \<open>part[d + 1] = std::min(n, alignup(n * cumsum[d + 1] / cumsum.back()))\<close>.
  Its counter \<open>d\<close> is a \<open>uint\<close>, of 32 bits: \<open>d + 1\<close> and \<open>d++\<close> wrap around at
  \<open>2 ^ 32\<close>, and the loop does not end when there are \<open>2 ^ 32\<close> queues or more and no
  conversion fails. A loop that does not end has the value \<open>None\<close>.
\<close>

definition uint_succ :: "nat \<Rightarrow> nat" where
  "uint_succ d = (d + 1) mod 2 ^ 32"

partial_function (option) fill_parts ::
  "nat \<Rightarrow> nat \<Rightarrow> double list \<Rightarrow> nat \<Rightarrow> nat \<Rightarrow> nat list \<Rightarrow> (error + nat list) option" where
  "fill_parts m n cumsum k d p =
     (if d < k then
        (case share n (cumsum ! uint_succ d) (last cumsum) of
           Inl e \<Rightarrow> Some (Inl e)
         | Inr x \<Rightarrow> fill_parts m n cumsum k (uint_succ d) (p[uint_succ d := min n (alignup x m)]))
      else Some (Inr p))"

declare fill_parts.simps [code]

definition partition_by_vector_perf ::
  "nat \<Rightarrow> (cl_queue \<Rightarrow> double) \<Rightarrow> nat \<Rightarrow> cl_queue list \<Rightarrow> (error + nat list) option" where
  "partition_by_vector_perf m perf n qs =
     (let p = replicate (length qs + 1) 0 in
      case (if length qs > 1
            then fill_parts m n (push_cumsum [Finite 0] (map perf qs)) (length qs) 0 p
            else Some (Inr p)) of
        None \<Rightarrow> None
      | Some (Inl e) \<Rightarrow> Some (Inl e)
      | Some (Inr p') \<Rightarrow> Some (Inr (p'[length p' - 1 := n])))"

text \<open>Whether a call has returned a table.\<close>

definition returns_table :: "(error + nat list) option \<Rightarrow> bool" where
  "returns_table r = (case r of Some (Inr t) \<Rightarrow> True | _ \<Rightarrow> False)"

text \<open>
  Auxiliary, used in the proofs only: the running sums as rationals, the value of
  \<open>n * c / t\<close> in \<open>double\<close> arithmetic, the value the loop stores at position \<open>j\<close>, and
  the number a finite \<open>double\<close> denotes.
\<close>

fun psums :: "rat \<Rightarrow> rat list \<Rightarrow> rat list" where
  "psums a [] = []"
| "psums a (w # ws) = round_double (a + w) # psums (round_double (a + w)) ws"

definition ratio :: "nat \<Rightarrow> rat \<Rightarrow> rat \<Rightarrow> rat" where
  "ratio n c t = round_double (round_double (round_double (of_nat n) * c) / t)"

definition bound :: "nat \<Rightarrow> nat \<Rightarrow> rat list \<Rightarrow> nat \<Rightarrow> nat" where
  "bound m n cs j = min n (alignup (nat \<lfloor>ratio n (cs ! j) (last cs)\<rfloor>) m)"

definition the_finite :: "double \<Rightarrow> rat" where
  "the_finite x = (case x of Finite r \<Rightarrow> r | _ \<Rightarrow> 0)"

section \<open>Expression assignment and the compiled-kernel cache\<close>

text \<open>
  What the assignment needs from outside: the device API, the helpers \<open>build_sources\<close>
  and \<open>kernel_workgroup_size\<close> and the constant \<open>standard_kernel_header\<close> of
  \<open>vexcl/util.hpp\<close> (not part of the sources), and the table \<open>type_name\<close>. They are
  parameters; a call that can throw returns an error.
\<close>

record device_api =
  queue_context :: "cl_queue \<Rightarrow> cl_context"
  queue_device :: "cl_queue \<Rightarrow> cl_device"
  context_devices :: "cl_context \<Rightarrow> cl_device list"
  device_is_cpu :: "cl_device \<Rightarrow> bool"
  max_compute_units :: "cl_device \<Rightarrow> nat"
  type_name :: "ctype \<Rightarrow> string"
  standard_kernel_header :: string
  build_sources :: "cl_context \<Rightarrow> string \<Rightarrow> error + cl_program"
  create_kernel :: "cl_program \<Rightarrow> string \<Rightarrow> error + cl_kernel"
  kernel_workgroup_size :: "cl_kernel \<Rightarrow> cl_device list \<Rightarrow> error + nat"
  enqueueNDRangeKernel :: "cl_queue \<Rightarrow> cl_kernel \<Rightarrow> nat \<Rightarrow> nat \<Rightarrow> error option"

text \<open>
  The C++ type of an expression: \<open>vector<T>\<close>, an arithmetic type, or
  \<open>BinaryExpression<LHS, OP, RHS>\<close>.
\<close>

datatype etype = VecT ctype | ScalT ctype | BinaryT etype char etype

fun expr_type :: "'c expr \<Rightarrow> etype" where
  "expr_type (Vec v) = VecT (vtype v)"
| "expr_type (Scal t c) = ScalT t"
| "expr_type (Binary lhs OP rhs) = BinaryT (expr_type lhs) OP (expr_type rhs)"

text \<open>
  \<open>vector<T>::exdata<Expr>\<close> holds three static maps from \<open>cl_context\<close>; there is one
  such triple for every pair of a destination element type \<open>T\<close> and an expression
  type \<open>Expr\<close>. \<open>std::map::operator[]\<close> gives a missing entry its default value:
  \<open>false\<close>, a null kernel, \<open>0\<close>. \<open>builds\<close> records every call of \<open>build_sources\<close>,
  \<open>launches\<close> every kernel enqueued.
\<close>

type_synonym cache_key = "ctype \<times> etype \<times> cl_context"

datatype 'c arg = ArgSize nat | ArgBuffer cl_buffer | ArgScalar 'c

datatype 'c launch = Launch cl_queue cl_kernel "'c arg list" nat nat

record 'c engine =
  compiled :: "cache_key \<Rightarrow> bool"
  kernel :: "cache_key \<Rightarrow> cl_kernel option"
  wgsize :: "cache_key \<Rightarrow> nat"
  builds :: "(cache_key \<times> string) list"
  launches :: "'c launch list"

subsection \<open>Kernel source\<close>

definition NL :: string where
  "NL = [CHR 0x0A]"

definition TAB :: string where
  "TAB = [CHR 0x09]"

fun preamble :: "'c expr \<Rightarrow> string \<Rightarrow> string" where
  "preamble (Vec v) name = []"
| "preamble (Scal t c) name = []"
| "preamble (Binary lhs OP rhs) name = preamble lhs (name @ ''l'') @ preamble rhs (name @ ''r'')"

fun kernel_prm :: "device_api \<Rightarrow> 'c expr \<Rightarrow> string \<Rightarrow> string" where
  "kernel_prm api (Vec v) name =
     '','' @ NL @ TAB @ ''global '' @ type_name api (vtype v) @ '' *'' @ name"
| "kernel_prm api (Scal t c) name = '','' @ NL @ TAB @ type_name api t @ '' '' @ name"
| "kernel_prm api (Binary lhs OP rhs) name =
     kernel_prm api lhs (name @ ''l'') @ kernel_prm api rhs (name @ ''r'')"

fun kernel_expr :: "'c expr \<Rightarrow> string \<Rightarrow> string" where
  "kernel_expr (Vec v) name = name @ ''[i]''"
| "kernel_expr (Scal t c) name = name"
| "kernel_expr (Binary lhs OP rhs) name =
     ''('' @ kernel_expr lhs (name @ ''l'') @ '' '' @ [OP] @ '' ''
       @ kernel_expr rhs (name @ ''r'') @ '')''"

text \<open>\<open>kernel_args\<close>: the arguments bound from position \<open>pos\<close> on, left to right.\<close>

fun kernel_args :: "'c expr \<Rightarrow> nat \<Rightarrow> error + 'c arg list" where
  "kernel_args (Vec v) devnum =
     (if devnum < length (buf v) then Inr [ArgBuffer (buf v ! devnum)] else Inl OutOfRange)"
| "kernel_args (Scal t c) devnum = Inr [ArgScalar c]"
| "kernel_args (Binary lhs OP rhs) devnum =
     (case kernel_args lhs devnum of
        Inl e \<Rightarrow> Inl e
      | Inr l \<Rightarrow> (case kernel_args rhs devnum of Inl e \<Rightarrow> Inl e | Inr r \<Rightarrow> Inr (l @ r)))"

definition kernel_source :: "device_api \<Rightarrow> ctype \<Rightarrow> 'c expr \<Rightarrow> string \<Rightarrow> bool \<Rightarrow> string" where
  "kernel_source api T e name is_cpu =
     standard_kernel_header api
     @ preamble e ''prm''
     @ ''kernel void '' @ name @ ''('' @ NL
     @ TAB @ type_name api ''size_t'' @ '' n,'' @ NL
     @ TAB @ ''global '' @ type_name api T @ '' *res''
     @ kernel_prm api e ''prm''
     @ NL @ TAB @ '')'' @ NL @ ''{'' @ NL
     @ TAB @ ''size_t i = get_global_id(0);'' @ NL
     @ (if is_cpu
        then TAB @ ''if (i < n) {'' @ NL @ TAB @ TAB @ ''res[i] = ''
        else TAB @ ''size_t grid_size = get_num_groups(0) * get_local_size(0);'' @ NL
             @ TAB @ ''while (i < n) {'' @ NL @ TAB @ TAB @ ''res[i] = '')
     @ kernel_expr e ''prm''
     @ (if is_cpu
        then '';'' @ NL @ TAB @ ''}'' @ NL @ ''}'' @ NL
        else '';'' @ NL @ TAB @ TAB @ ''i += grid_size;'' @ NL @ TAB @ ''}'' @ NL @ ''}'' @ NL)"

subsection \<open>Assignment of an expression\<close>

text \<open>
  One pass of the first loop of \<open>vector::operator=(const Expr&)\<close>, for the queue
  \<open>q\<close>. The state is returned also when an exception leaves the loop: the cache is
  static and outlives the call.
\<close>

definition compile_for ::
  "device_api \<Rightarrow> ctype \<Rightarrow> 'c expr \<Rightarrow> 'c engine \<Rightarrow> cl_queue \<Rightarrow> 'c engine \<times> error option" where
  "compile_for api T e st q =
     (let context = queue_context api q; key = (T, expr_type e, context) in
      if compiled st key then (st, None)
      else (case context_devices api context of
              [] \<Rightarrow> (st, Some OutOfRange)
            | dev0 # _ \<Rightarrow>
               (case kernel_name e of
                  Inl err \<Rightarrow> (st, Some err)
                | Inr name \<Rightarrow>
                   (let src = kernel_source api T e name (device_is_cpu api dev0);
                        st1 = st\<lparr>builds := builds st @ [(key, src)]\<rparr>
                    in case build_sources api context src of
                         Inl err \<Rightarrow> (st1, Some err)
                       | Inr program \<Rightarrow>
                          (case create_kernel api program name of
                             Inl err \<Rightarrow> (st1, Some err)
                           | Inr k \<Rightarrow>
                              (let st2 = st1\<lparr>kernel := (kernel st1)(key := Some k),
                                              compiled := (compiled st1)(key := True)\<rparr>
                               in case kernel_workgroup_size api k (context_devices api context) of
                                    Inl err \<Rightarrow> (st2, Some err)
                                  | Inr wg \<Rightarrow> (st2\<lparr>wgsize := (wgsize st2)(key := wg)\<rparr>, None)))))))"

fun compile_loop ::
  "device_api \<Rightarrow> ctype \<Rightarrow> 'c expr \<Rightarrow> 'c engine \<Rightarrow> cl_queue list \<Rightarrow> 'c engine \<times> error option" where
  "compile_loop api T e st [] = (st, None)"
| "compile_loop api T e st (q # qs) =
     (case compile_for api T e st q of
        (st', Some err) \<Rightarrow> (st', Some err)
      | (st', None) \<Rightarrow> compile_loop api T e st' qs)"

text \<open>The second loop: one launch for every shard of non-zero length.\<close>

fun launch_shards ::
  "device_api \<Rightarrow> 'c expr \<Rightarrow> 'c engine \<Rightarrow> vector \<Rightarrow> nat list \<Rightarrow> 'c engine \<times> error option" where
  "launch_shards api e st v [] = (st, None)"
| "launch_shards api e st v (d # ds) =
     (let psize = part v ! (d + 1) - part v ! d
      in if psize \<noteq> 0
         then (let context = queue_context api (queue v ! d);
                   device = queue_device api (queue v ! d);
                   key = (vtype v, expr_type e, context);
                   g_size = (if device_is_cpu api device then alignup psize (wgsize st key)
                             else max_compute_units api device * wgsize st key * 4)
               in case kernel st key of
                    None \<Rightarrow> (st, Some DeviceError)
                  | Some k \<Rightarrow>
                     (case kernel_args e d of
                        Inl err \<Rightarrow> (st, Some err)
                      | Inr args \<Rightarrow>
                         (case enqueueNDRangeKernel api (queue v ! d) k g_size (wgsize st key) of
                            Some err \<Rightarrow> (st, Some err)
                          | None \<Rightarrow>
                             launch_shards api e
                               (st\<lparr>launches := launches st
                                     @ [Launch (queue v ! d) k
                                          (ArgSize psize # ArgBuffer (buf v ! d) # args)
                                          g_size (wgsize st key)]\<rparr>)
                               v ds)))
         else launch_shards api e st v ds)"

definition assign_expr ::
  "device_api \<Rightarrow> 'c engine \<Rightarrow> vector \<Rightarrow> 'c expr \<Rightarrow> 'c engine \<times> error option" where
  "assign_expr api st v e =
     (case compile_loop api (vtype v) e st (queue v) of
        (st', Some err) \<Rightarrow> (st', Some err)
      | (st', None) \<Rightarrow> launch_shards api e st' v [0..<length (queue v)])"

text \<open>
  The states of the cache that follow a given one: those reached by any number of
  assignments, to any destinations and of any expressions.
\<close>

inductive later :: "device_api \<Rightarrow> 'c engine \<Rightarrow> 'c engine \<Rightarrow> bool"
  for api :: device_api and st :: "'c engine" where
  later_refl: "later api st st"
| later_step: "later api st st' \<Longrightarrow> later api st (fst (assign_expr api st' v e))"

text \<open>
  What the second loop is expected to enqueue for shard \<open>d\<close>, given the cache: the
  kernel and the work-group size found under the key of the shard's context, the size
  of the shard, its buffer and the arguments of the expression. \<open>launched_shards\<close> are
  the shards of non-zero length, in order.
\<close>

definition launched_shards :: "vector \<Rightarrow> nat list" where
  "launched_shards v = filter (\<lambda>d. part v ! (d + 1) - part v ! d \<noteq> 0) [0..<length (queue v)]"

definition expected_launch ::
  "device_api \<Rightarrow> 'c engine \<Rightarrow> vector \<Rightarrow> 'c expr \<Rightarrow> nat \<Rightarrow> 'c launch option" where
  "expected_launch api st v e d =
     (let psize = part v ! (d + 1) - part v ! d;
          context = queue_context api (queue v ! d);
          device = queue_device api (queue v ! d);
          key = (vtype v, expr_type e, context);
          g_size = (if device_is_cpu api device then alignup psize (wgsize st key)
                    else max_compute_units api device * wgsize st key * 4)
      in case kernel st key of
           None \<Rightarrow> None
         | Some k \<Rightarrow>
            (case kernel_args e d of
               Inl err \<Rightarrow> None
             | Inr args \<Rightarrow>
                Some (Launch (queue v ! d) k (ArgSize psize # ArgBuffer (buf v ! d) # args)
                        g_size (wgsize st key))))"

subsection \<open>Operators\<close>

text \<open>
  The four free operator templates, and the four compound assignments of \<open>vector\<close>:
  \<open>return *this = *this + expr\<close> and its siblings.
\<close>

definition operator_plus :: "'c expr \<Rightarrow> 'c expr \<Rightarrow> 'c expr" where
  "operator_plus lhs rhs = Binary lhs (CHR ''+'') rhs"

definition operator_minus :: "'c expr \<Rightarrow> 'c expr \<Rightarrow> 'c expr" where
  "operator_minus lhs rhs = Binary lhs (CHR ''-'') rhs"

definition operator_times :: "'c expr \<Rightarrow> 'c expr \<Rightarrow> 'c expr" where
  "operator_times lhs rhs = Binary lhs (CHR ''*'') rhs"

definition operator_divide :: "'c expr \<Rightarrow> 'c expr \<Rightarrow> 'c expr" where
  "operator_divide lhs rhs = Binary lhs (CHR ''/'') rhs"

definition operator_plus_assign ::
  "device_api \<Rightarrow> 'c engine \<Rightarrow> vector \<Rightarrow> 'c expr \<Rightarrow> 'c engine \<times> error option" where
  "operator_plus_assign api st this expr = assign_expr api st this (operator_plus (Vec this) expr)"

definition operator_times_assign ::
  "device_api \<Rightarrow> 'c engine \<Rightarrow> vector \<Rightarrow> 'c expr \<Rightarrow> 'c engine \<times> error option" where
  "operator_times_assign api st this expr = assign_expr api st this (operator_times (Vec this) expr)"

definition operator_divide_assign ::
  "device_api \<Rightarrow> 'c engine \<Rightarrow> vector \<Rightarrow> 'c expr \<Rightarrow> 'c engine \<times> error option" where
  "operator_divide_assign api st this expr = assign_expr api st this (operator_divide (Vec this) expr)"

definition operator_minus_assign ::
  "device_api \<Rightarrow> 'c engine \<Rightarrow> vector \<Rightarrow> 'c expr \<Rightarrow> 'c engine \<times> error option" where
  "operator_minus_assign api st this expr = assign_expr api st this (operator_minus (Vec this) expr)"

text \<open>
  The specification's wording of an accumulation: \<open>dst = dst OP expr\<close>, through the
  one synthesis path.
\<close>

definition accumulate_spec ::
  "char \<Rightarrow> device_api \<Rightarrow> 'c engine \<Rightarrow> vector \<Rightarrow> 'c expr \<Rightarrow> 'c engine \<times> error option" where
  "accumulate_spec OP api st dst expr = assign_expr api st dst (Binary (Vec dst) OP expr)"

text \<open>How often \<open>build_sources\<close> has been called for a key.\<close>

definition build_count :: "'c engine \<Rightarrow> cache_key \<Rightarrow> nat" where
  "build_count st key = length (filter (\<lambda>b. fst b = key) (builds st))"

text \<open>
  A cache entry that holds a kernel together with the work-group size the device
  reports for it.
\<close>

definition stored :: "device_api \<Rightarrow> 'c engine \<Rightarrow> cache_key \<Rightarrow> bool" where
  "stored api st key =
     (\<exists>kn wg. kernel st key = Some kn
        \<and> kernel_workgroup_size api kn (context_devices api (snd (snd key))) = Inr wg
        \<and> wgsize st key = wg)"

text \<open>
  The static maps at program start, and a device API with one context and one CPU
  device on which every call succeeds, for the examples.
\<close>

definition empty_engine :: "'c engine" where
  "empty_engine =
     \<lparr>compiled = (\<lambda>k. False), kernel = (\<lambda>k. None), wgsize = (\<lambda>k. 0),
      builds = [], launches = []\<rparr>"

definition example_api :: device_api where
  "example_api =
     \<lparr>queue_context = (\<lambda>q. 0), queue_device = (\<lambda>q. 0), context_devices = (\<lambda>c. [0]),
      device_is_cpu = (\<lambda>d. True), max_compute_units = (\<lambda>d. 4), type_name = (\<lambda>t. t),
      standard_kernel_header = [], build_sources = (\<lambda>c src. Inr 1),
      create_kernel = (\<lambda>p name. Inr 1), kernel_workgroup_size = (\<lambda>k devs. Inr 64),
      enqueueNDRangeKernel = (\<lambda>q k g l. None)\<rparr>"

text \<open>
  Example vectors, device states, expressions, a device API whose builds fail, and a
  cache key.
\<close>

abbreviation (input) VI :: "vector" where
  "VI \<equiv> \<lparr>vtype = ''int'', queue = [0, 1, 2], part = [0, 2, 2, 5], buf = [1, 0, 2], event = [0, 0, 0]\<rparr>"

abbreviation (input) VJ :: "vector" where
  "VJ \<equiv> \<lparr>vtype = ''int'', queue = [0, 1, 2], part = [0, 2, 2, 5], buf = [3, 0, 4], event = [0, 0, 0]\<rparr>"

abbreviation (input) SI :: "int device_state" where
  "SI \<equiv> \<lparr>mem = [1 \<mapsto> [0, 0], 2 \<mapsto> [0, 0, 0::int]], issued = [], next_event = 1\<rparr>"

abbreviation (input) SJ :: "int device_state" where
  "SJ \<equiv> \<lparr>mem = [1 \<mapsto> [1, 2], 2 \<mapsto> [3, 4, 5], 3 \<mapsto> [0, 0], 4 \<mapsto> [0, 0, 0::int]],
        issued = [], next_event = 1\<rparr>"

abbreviation (input) VF :: "vector" where
  "VF \<equiv> \<lparr>vtype = ''float'', queue = [0, 1], part = [0, 3, 5], buf = [1, 2], event = [0, 0]\<rparr>"

abbreviation (input) VG :: "vector" where
  "VG \<equiv> \<lparr>vtype = ''float'', queue = [1], part = [0, 4], buf = [3], event = [0]\<rparr>"

abbreviation (input) VE :: "vector" where
  "VE \<equiv> \<lparr>vtype = ''double'', queue = [0, 1], part = [0, 3, 5], buf = [5, 6], event = [0, 0]\<rparr>"

abbreviation (input) EA :: "int expr" where
  "EA \<equiv> Binary (Vec VF) (CHR ''+'') (Scal ''int'' (3::int))"

abbreviation (input) EB :: "int expr" where
  "EB \<equiv> Binary (Vec VG) (CHR ''+'') (Scal ''int'' (7::int))"

abbreviation (input) FAIL :: "device_api" where
  "FAIL \<equiv> example_api\<lparr>build_sources := (\<lambda>c src. Inl DeviceError)\<rparr>"

abbreviation (input) KG :: "cache_key" where
  "KG \<equiv> (''float'', BinaryT (VecT ''float'') (CHR ''+'') (ScalT ''int''), 0::nat)"

section \<open>Properties of kernel names\<close>

lemma op_token_inj:
  "known_op a \<Longrightarrow> known_op b \<Longrightarrow> op_token a = op_token b \<Longrightarrow> a = b"
  by (auto simp: known_op_def op_token_def)

lemma op_token_not_leaf:
  "known_op a \<Longrightarrow> op_token a \<noteq> CHR ''v'' \<and> op_token a \<noteq> CHR ''c''"
  by (auto simp: known_op_def op_token_def)

lemma shape_ok_shape_of: "shape_ok (shape_of e) = supported e"
  by (induction e) auto

lemma kernel_name_supported:
  "supported e \<Longrightarrow> kernel_name e = Inr (shape_name (shape_of e))"
  by (induction e) (auto simp: known_op_def op_token_def cat_names_def)

lemma kernel_name_error:
  "kernel_name e = Inl x \<Longrightarrow> x = UnknownOperation"
  by (induction e arbitrary: x)
     (auto simp: cat_names_def split: sum.splits if_splits)

lemma kernel_name_unsupported:
  "\<not> supported e \<Longrightarrow> kernel_name e = Inl UnknownOperation"
proof (induction e)
  case (Binary lhs OP rhs)
  show ?case
  proof (cases "known_op OP")
    case False
    then show ?thesis by (simp add: known_op_def)
  next
    case True
    with Binary.prems have "\<not> supported lhs \<or> \<not> supported rhs" by simp
    with Binary.IH have "kernel_name lhs = Inl UnknownOperation \<or> kernel_name rhs = Inl UnknownOperation"
      by blast
    then show ?thesis
      using kernel_name_error [of lhs] kernel_name_error [of rhs]
      by (auto simp: cat_names_def split: sum.splits)
  qed
qed simp_all

text \<open>Prefix notation with fixed arities is uniquely decodable.\<close>

lemma shape_name_prefix_free:
  "shape_ok s1 \<Longrightarrow> shape_ok s2 \<Longrightarrow> shape_name s1 @ r1 = shape_name s2 @ r2
   \<Longrightarrow> s1 = s2 \<and> r1 = r2"
proof (induction s1 arbitrary: s2 r1 r2)
  case VecLeaf
  then show ?case using op_token_not_leaf by (cases s2) auto
next
  case ScalLeaf
  then show ?case using op_token_not_leaf by (cases s2) auto
next
  case (BinNode l1 a r1')
  show ?case
  proof (cases s2)
    case VecLeaf
    with BinNode.prems show ?thesis using op_token_not_leaf [of a] by auto
  next
    case ScalLeaf
    with BinNode.prems show ?thesis using op_token_not_leaf [of a] by auto
  next
    case (BinNode l2 b r2')
    with BinNode.prems have ops: "op_token a = op_token b"
      and rest: "shape_name l1 @ (shape_name r1' @ r1) = shape_name l2 @ (shape_name r2' @ r2)"
      and ok: "known_op a" "known_op b" "shape_ok l1" "shape_ok l2" "shape_ok r1'" "shape_ok r2'"
      by auto
    from ok ops have ab: "a = b" by (blast intro: op_token_inj)
    from BinNode.IH(1) [OF ok(3) ok(4) rest]
    have l: "l1 = l2" and rest': "shape_name r1' @ r1 = shape_name r2' @ r2" by auto
    from BinNode.IH(2) [OF ok(5) ok(6) rest'] have "r1' = r2'" "r1 = r2" by auto
    with ab l BinNode show ?thesis by simp
  qed
qed

lemma shape_name_inj:
  "shape_ok s1 \<Longrightarrow> shape_ok s2 \<Longrightarrow> shape_name s1 = shape_name s2 \<Longrightarrow> s1 = s2"
  using shape_name_prefix_free [of s1 s2 "[]" "[]"] by simp

text \<open>
  C3. For expressions built from vector leaves, scalar leaves and the four binary
  operators, two kernel names are equal exactly when the two expressions have the same
  tree shape. In particular \<open>a + (b + c)\<close> and \<open>(a + b) + c\<close> get different names, and
  the name does not depend on which vectors or scalar values the leaves hold.
\<close>

theorem kernel_name_injective_on_shapes:
  assumes "supported e1" and "supported e2"
  shows "(kernel_name e1 = kernel_name e2 \<longleftrightarrow> shape_of e1 = shape_of e2)
    \<and> kernel_name (Binary (Vec a) (CHR ''+'') (Binary (Vec b) (CHR ''+'') (Vec c))
          :: 'c expr)
      \<noteq> kernel_name (Binary (Binary (Vec a) (CHR ''+'') (Vec b)) (CHR ''+'') (Vec c))"
proof -
  have "kernel_name e1 = kernel_name e2 \<longleftrightarrow> shape_of e1 = shape_of e2"
  proof
    assume "kernel_name e1 = kernel_name e2"
    with assms have "shape_name (shape_of e1) = shape_name (shape_of e2)"
      by (simp add: kernel_name_supported)
    with assms show "shape_of e1 = shape_of e2"
      by (intro shape_name_inj) (simp_all add: shape_ok_shape_of)
  next
    assume "shape_of e1 = shape_of e2"
    with assms show "kernel_name e1 = kernel_name e2"
      by (simp add: kernel_name_supported)
  qed
  moreover have "kernel_name (Binary (Vec a) (CHR ''+'') (Binary (Vec b) (CHR ''+'') (Vec c))
          :: 'c expr)
      \<noteq> kernel_name (Binary (Binary (Vec a) (CHR ''+'') (Vec b)) (CHR ''+'') (Vec c))"
    by (simp add: cat_names_def)
  ultimately show ?thesis by blast
qed

theorem kernel_name_injective_on_shapes_witness:
  "supported (Binary (Vec \<lparr>vtype = ''float'', queue = [0], part = [0, 5], buf = [1], event = [0]\<rparr>)
       (CHR ''*'') (Scal ''int'' (3::int)))
   \<and> supported (Binary (Vec \<lparr>vtype = ''double'', queue = [0], part = [0, 7], buf = [2], event = [0]\<rparr>)
       (CHR ''*'') (Scal ''int'' (4::int)))
   \<and> kernel_name (Binary (Vec \<lparr>vtype = ''float'', queue = [0], part = [0, 5], buf = [1], event = [0]\<rparr>)
       (CHR ''*'') (Scal ''int'' (3::int)))
     = kernel_name (Binary (Vec \<lparr>vtype = ''double'', queue = [0], part = [0, 7], buf = [2], event = [0]\<rparr>)
       (CHR ''*'') (Scal ''int'' (4::int)))
   \<and> kernel_name (Binary (Vec \<lparr>vtype = ''float'', queue = [0], part = [0, 5], buf = [1], event = [0]\<rparr>)
       (CHR ''*'') (Scal ''int'' (3::int))) = Inr ''tvc''"
  using kernel_name_injective_on_shapes
    [of "Binary (Vec \<lparr>vtype = ''float'', queue = [0], part = [0, 5], buf = [1], event = [0]\<rparr>)
           (CHR ''*'') (Scal ''int'' (3::int))"
        "Binary (Vec \<lparr>vtype = ''double'', queue = [0], part = [0, 7], buf = [2], event = [0]\<rparr>)
           (CHR ''*'') (Scal ''int'' (4::int))"]
  by (simp add: known_op_def cat_names_def)

text \<open>
  C8. \<open>kernel_name\<close> of a binary expression whose operator character is not one of
  \<open>+ - * /\<close> throws; with one of the four it returns the operator's token followed by
  the operands' names, whenever the operands have names. So an expression gets a name
  exactly when every operator in it is one of the four.
\<close>

theorem kernel_name_throws_iff_unknown_operator:
  "(\<not> known_op OP \<longrightarrow> kernel_name (Binary lhs OP rhs) = Inl UnknownOperation)
   \<and> (known_op OP \<longrightarrow> kernel_name lhs = Inr l \<longrightarrow> kernel_name rhs = Inr r
        \<longrightarrow> kernel_name (Binary lhs OP rhs) = Inr (op_token OP # l @ r))
   \<and> (supported e \<longrightarrow> (\<exists>s. kernel_name e = Inr s))
   \<and> (\<not> supported e \<longrightarrow> kernel_name e = Inl UnknownOperation)"
proof -
  have "\<not> known_op OP \<longrightarrow> kernel_name (Binary lhs OP rhs) = Inl UnknownOperation"
    by (simp add: known_op_def)
  moreover have "known_op OP \<longrightarrow> kernel_name lhs = Inr l \<longrightarrow> kernel_name rhs = Inr r
        \<longrightarrow> kernel_name (Binary lhs OP rhs) = Inr (op_token OP # l @ r)"
    by (auto simp: known_op_def op_token_def cat_names_def)
  moreover have "supported e \<longrightarrow> (\<exists>s. kernel_name e = Inr s)"
    by (simp add: kernel_name_supported)
  moreover have "\<not> supported e \<longrightarrow> kernel_name e = Inl UnknownOperation"
    by (simp add: kernel_name_unsupported)
  ultimately show ?thesis by blast
qed

theorem kernel_name_throws_iff_unknown_operator_witness:
  "\<not> known_op (CHR ''%'')
   \<and> kernel_name (Binary (Scal ''int'' (1::int)) (CHR ''%'') (Scal ''int'' 2)) = Inl UnknownOperation
   \<and> supported (Binary (Scal ''int'' (1::int)) (CHR ''-'') (Scal ''int'' 2))
   \<and> (\<exists>s. kernel_name (Binary (Scal ''int'' (1::int)) (CHR ''-'') (Scal ''int'' 2)) = Inr s)
   \<and> known_op (CHR ''/'')
   \<and> kernel_name (Binary (Scal ''int'' (1::int)) (CHR ''/'') (Scal ''int'' 2)) = Inr ''dcc''"
  using kernel_name_throws_iff_unknown_operator
    [of "CHR ''%''" "Scal ''int'' (1::int)" "Scal ''int'' 2" "''c''" "''c''"
        "Binary (Scal ''int'' (1::int)) (CHR ''-'') (Scal ''int'' 2)"]
    kernel_name_throws_iff_unknown_operator
    [of "CHR ''/''" "Scal ''int'' (1::int)" "Scal ''int'' 2" "''c''" "''c''"
        "Scal ''int'' (1::int)"]
  by (simp add: known_op_def op_token_def)

section \<open>Properties of part sizes and element access\<close>

text \<open>
  C6. The part size of a binary composite on device \<open>d\<close> is the maximum of its operands'
  part sizes; that of a vector leaf is \<open>part[d + 1] - part[d]\<close>, the number of indices
  its shard \<open>d\<close> owns; that of a scalar leaf is zero.
\<close>

theorem part_size_cases:
  "(part_size lhs d = Inr a \<longrightarrow> part_size rhs d = Inr b
      \<longrightarrow> part_size (Binary lhs OP rhs) d = Inr (max a b))
   \<and> (vector_inv v \<and> d < nparts v
      \<longrightarrow> part_size (Vec v) d = Inr (part v ! (d + 1) - part v ! d)
        \<and> part v ! (d + 1) - part v ! d = card {part v ! d ..< part v ! (d + 1)})
   \<and> part_size (Scal t c) d = Inr 0"
  by (auto simp: vector_part_size_def vector_inv_def nparts_def)

theorem part_size_cases_witness:
  "vector_inv \<lparr>vtype = ''float'', queue = [0, 1], part = [0, 48, 100], buf = [1, 2], event = [0, 0]\<rparr>
   \<and> part_size (Vec \<lparr>vtype = ''float'', queue = [0, 1], part = [0, 48, 100], buf = [1, 2],
        event = [0, 0]\<rparr> :: int expr) 1 = Inr 52
   \<and> part_size (Scal ''int'' (3::int)) 1 = Inr 0
   \<and> part_size (Binary (Vec \<lparr>vtype = ''float'', queue = [0, 1], part = [0, 48, 100],
        buf = [1, 2], event = [0, 0]\<rparr>) (CHR ''+'') (Scal ''int'' (3::int))) 1 = Inr 52"
  using part_size_cases
    [of "Vec \<lparr>vtype = ''float'', queue = [0, 1], part = [0, 48, 100], buf = [1, 2], event = [0, 0]\<rparr>"
        1 52 "Scal ''int'' (3::int)" 0 "CHR ''+''"
        "\<lparr>vtype = ''float'', queue = [0, 1], part = [0, 48, 100], buf = [1, 2], event = [0, 0]\<rparr>"
        "''int''" "3::int"]
  by (simp add: vector_inv_def nparts_def vector_part_size_def)

lemma find_part_in_range:
  "length (part v) = nparts v + 1 \<Longrightarrow> index < part v ! nparts v \<Longrightarrow>
   d < nparts v \<Longrightarrow> part v ! d \<le> index \<Longrightarrow>
    \<exists>r. find_part v index d = Inr r \<and> r < nparts v \<and> part v ! r \<le> index \<and> index < part v ! (r + 1)"
proof (induction v index d rule: find_part.induct)
  case (1 v index d)
  note len = "1.prems"(1) and lt = "1.prems"(2)
  show ?case
  proof (cases "part v ! (d + 1) \<le> index")
    case True
    with "1.prems" have "d + 1 \<noteq> nparts v" by auto
    with "1.prems" have d1: "d + 1 < nparts v" by simp
    with len have "d + 1 < length (part v)" by simp
    then show ?thesis using "1.IH" [OF _ _ len lt d1 True] True "1.prems"
      by (subst find_part.simps) simp
  next
    case False
    with "1.prems" show ?thesis
      by (subst find_part.simps) simp
  qed
qed

lemma find_part_past_end:
  "length (part v) = nparts v + 1 \<Longrightarrow> sorted (part v) \<Longrightarrow> part v ! nparts v \<le> index \<Longrightarrow>
   d \<le> nparts v \<Longrightarrow> find_part v index d = Inl OutOfRange"
proof (induction v index d rule: find_part.induct)
  case (1 v index d)
  note len = "1.prems"(1) and srt = "1.prems"(2) and ge = "1.prems"(3)
  show ?case
  proof (cases "d < nparts v")
    case True
    with len srt have "part v ! (d + 1) \<le> part v ! nparts v"
      by (intro sorted_nth_mono) simp_all
    with ge have "part v ! (d + 1) \<le> index" by simp
    with True len srt ge "1.IH" show ?thesis
      by (subst find_part.simps) simp
  next
    case False
    with "1.prems" show ?thesis
      by (subst find_part.simps) simp
  qed
qed

lemma shard_unique:
  assumes "sorted p" "d + 1 < length p" "d' + 1 < length p"
    and "p ! d \<le> i" "i < p ! (d + 1)" "p ! d' \<le> i" "i < p ! (d' + 1)"
  shows "d' = (d::nat)"
proof (rule ccontr)
  assume "d' \<noteq> d"
  then consider "d' + 1 \<le> d" | "d + 1 \<le> d'" by linarith
  then show False
  proof cases
    case 1
    with assms have "p ! (d' + 1) \<le> p ! d" by (intro sorted_nth_mono) simp_all
    with assms show False by simp
  next
    case 2
    with assms have "p ! (d + 1) \<le> p ! d'" by (intro sorted_nth_mono) simp_all
    with assms show False by simp
  qed
qed

text \<open>
  C10. For an index below \<open>size()\<close>, the search loop of \<open>operator[]\<close> terminates at the
  one shard \<open>d\<close> with \<open>part[d] \<le> index < part[d + 1]\<close>, and the proxy addresses that
  shard's buffer at \<open>index - part[d]\<close>, which is below the shard's part size. For an index
  that is not below \<open>size()\<close> the loop reads the partition table past its end.
\<close>

theorem subscript_selects_owning_shard:
  assumes inv: "vector_inv v"
  shows "(index < vsize v \<longrightarrow>
           (\<exists>d. find_part v index 0 = Inr d \<and> d < nparts v
              \<and> part v ! d \<le> index \<and> index < part v ! (d + 1)
              \<and> (\<forall>d'. d' < nparts v \<and> part v ! d' \<le> index \<and> index < part v ! (d' + 1)
                     \<longrightarrow> d' = d)
              \<and> subscript v index
                  = Inr \<lparr>el_queue = queue v ! d, el_buf = buf v ! d,
                         el_index = index - part v ! d\<rparr>
              \<and> vector_part_size v d = Inr (part v ! (d + 1) - part v ! d)
              \<and> index - part v ! d < part v ! (d + 1) - part v ! d))
       \<and> (vsize v \<le> index \<longrightarrow> subscript v index = Inl OutOfRange)"
proof (intro conjI impI)
  assume lt: "index < vsize v"
  then have ne: "part v \<noteq> []" by (auto simp: vsize_def)
  with inv have len: "length (part v) = nparts v + 1" and p0: "part v ! 0 = 0"
    and srt: "sorted (part v)" and lb: "length (buf v) = nparts v"
    by (auto simp: vector_inv_def nparts_def)
  from len ne have last: "vsize v = part v ! nparts v"
    by (simp add: vsize_def last_conv_nth)
  from lt last have "nparts v \<noteq> 0" using p0 by (cases "nparts v") auto
  then have pos: "0 < nparts v" by simp
  from find_part_in_range [OF len _ pos] lt last p0
  obtain d where d: "find_part v index 0 = Inr d" "d < nparts v"
      "part v ! d \<le> index" "index < part v ! (d + 1)"
    by auto
  have uniq: "\<forall>d'. d' < nparts v \<and> part v ! d' \<le> index \<and> index < part v ! (d' + 1) \<longrightarrow> d' = d"
  proof (intro allI impI)
    fix d' assume h: "d' < nparts v \<and> part v ! d' \<le> index \<and> index < part v ! (d' + 1)"
    from d(2) len have 1: "d + 1 < length (part v)" by simp
    from h len have 2: "d' + 1 < length (part v)" by simp
    from h show "d' = d" using shard_unique [OF srt 1 2 d(3) d(4)] by simp
  qed
  have sub: "subscript v index
      = Inr \<lparr>el_queue = queue v ! d, el_buf = buf v ! d, el_index = index - part v ! d\<rparr>"
    using d(1,2) len lb by (simp add: subscript_def nparts_def)
  have ps: "vector_part_size v d = Inr (part v ! (d + 1) - part v ! d)"
    using d(2) len by (simp add: vector_part_size_def)
  have off: "index - part v ! d < part v ! (d + 1) - part v ! d"
    using d(3,4) by linarith
  show "\<exists>d. find_part v index 0 = Inr d \<and> d < nparts v
              \<and> part v ! d \<le> index \<and> index < part v ! (d + 1)
              \<and> (\<forall>d'. d' < nparts v \<and> part v ! d' \<le> index \<and> index < part v ! (d' + 1)
                     \<longrightarrow> d' = d)
              \<and> subscript v index
                  = Inr \<lparr>el_queue = queue v ! d, el_buf = buf v ! d,
                         el_index = index - part v ! d\<rparr>
              \<and> vector_part_size v d = Inr (part v ! (d + 1) - part v ! d)
              \<and> index - part v ! d < part v ! (d + 1) - part v ! d"
    by (rule exI [of _ d]) (intro conjI d uniq sub ps off)
next
  assume ge: "vsize v \<le> index"
  show "subscript v index = Inl OutOfRange"
  proof (cases "part v = []")
    case True
    then have "find_part v index 0 = Inl OutOfRange"
      by (subst find_part.simps) simp
    then show ?thesis by (simp add: subscript_def)
  next
    case False
    with inv have len: "length (part v) = nparts v + 1" and srt: "sorted (part v)"
      by (auto simp: vector_inv_def nparts_def)
    from len False have "vsize v = part v ! nparts v"
      by (simp add: vsize_def last_conv_nth)
    with ge find_part_past_end [OF len srt, of index 0] show ?thesis
      by (simp add: subscript_def)
  qed
qed

theorem subscript_selects_owning_shard_witness:
  "vector_inv \<lparr>vtype = ''float'', queue = [0, 1, 2], part = [0, 16, 16, 40],
       buf = [7, 0, 9], event = [0, 0, 0]\<rparr>
   \<and> subscript \<lparr>vtype = ''float'', queue = [0, 1, 2], part = [0, 16, 16, 40],
       buf = [7, 0, 9], event = [0, 0, 0]\<rparr> 20
     = Inr \<lparr>el_queue = 2, el_buf = 9, el_index = 4\<rparr>
   \<and> subscript \<lparr>vtype = ''float'', queue = [0, 1, 2], part = [0, 16, 16, 40],
       buf = [7, 0, 9], event = [0, 0, 0]\<rparr> 40 = Inl OutOfRange"
proof -
  let ?v = "\<lparr>vtype = ''float'', queue = [0, 1, 2], part = [0, 16, 16, 40],
       buf = [7, 0, 9], event = [0, 0, 0]\<rparr>"
  have inv: "vector_inv ?v" by (simp add: vector_inv_def)
  have "(20::nat) < vsize ?v" and "vsize ?v \<le> (40::nat)" by (simp_all add: vsize_def)
  moreover have "find_part ?v 20 0 = Inr 2" by (simp add: find_part.simps nparts_def)
  ultimately show ?thesis
    using subscript_selects_owning_shard [OF inv, of 20]
      subscript_selects_owning_shard [OF inv, of 40] inv
    by simp
qed

section \<open>Properties of the partitioner\<close>

subsection \<open>Rounding to a double\<close>

lemma rne_of_int: "rne (of_int k) = k"
  by (simp add: rne_def)

lemma rne_floor: "\<lfloor>y\<rfloor> \<le> rne y \<and> rne y \<le> \<lfloor>y\<rfloor> + 1"
  by (simp add: rne_def Let_def)

lemma rne_mono: "x \<le> y \<Longrightarrow> rne x \<le> rne y"
proof -
  assume xy: "x \<le> y"
  then have fl: "\<lfloor>x\<rfloor> \<le> \<lfloor>y\<rfloor>" by (rule floor_mono)
  show ?thesis
  proof (cases "\<lfloor>x\<rfloor> = \<lfloor>y\<rfloor>")
    case True
    with xy have "x - of_int \<lfloor>x\<rfloor> \<le> y - of_int \<lfloor>x\<rfloor>" by simp
    with True show ?thesis by (auto simp: rne_def Let_def)
  next
    case False
    with fl have "\<lfloor>x\<rfloor> + 1 \<le> \<lfloor>y\<rfloor>" by simp
    with rne_floor [of x] rne_floor [of y] show ?thesis by linarith
  qed
qed

lemma rne_le_twice: "0 \<le> y \<Longrightarrow> of_int (rne y) \<le> 2 * y"
proof -
  assume y: "0 \<le> y"
  have fl: "of_int \<lfloor>y\<rfloor> \<le> y" by simp
  from y have f0: "0 \<le> \<lfloor>y\<rfloor>" by simp
  show ?thesis
  proof (cases "y - of_int \<lfloor>y\<rfloor> < 1 / 2")
    case True
    then have "rne y = \<lfloor>y\<rfloor>" by (simp add: rne_def Let_def)
    with fl y show ?thesis by linarith
  next
    case False
    then have "of_int \<lfloor>y\<rfloor> + 1 / 2 \<le> y" by linarith
    moreover have "(of_int (rne y) :: rat) \<le> of_int \<lfloor>y\<rfloor> + 1"
      using rne_floor [of y] by (metis of_int_1 of_int_add of_int_le_iff)
    moreover from f0 have "(0::rat) \<le> of_int \<lfloor>y\<rfloor>" by simp
    ultimately show ?thesis by linarith
  qed
qed

lemma rne_nonneg: "0 \<le> y \<Longrightarrow> 0 \<le> rne y"
  using rne_mono [of 0 y] rne_of_int [of 0] by simp

lemma rne_ge: "of_int a \<le> y \<Longrightarrow> a \<le> rne y"
  using rne_mono [of "of_int a" y] by (simp add: rne_of_int)

lemma rne_le: "y \<le> of_int b \<Longrightarrow> rne y \<le> b"
  using rne_mono [of y "of_int b"] by (simp add: rne_of_int)

lemma exponent_range: "emin \<le> exponent x \<and> exponent x \<le> emax + 1"
proof (cases "find (\<lambda>e. \<bar>x\<bar> < 2 powi (e + 1)) [emin..emax]")
  case None
  then show ?thesis by (simp add: exponent_def emin_def emax_def)
next
  case (Some e)
  then have "e \<in> set [emin..emax]" by (auto simp: find_Some_iff)
  with Some show ?thesis by (simp add: exponent_def)
qed

lemma exponent_upper: "exponent x \<le> emax \<Longrightarrow> \<bar>x\<bar> < 2 powi (exponent x + 1)"
proof (cases "find (\<lambda>e. \<bar>x\<bar> < 2 powi (e + 1)) [emin..emax]")
  case None
  assume "exponent x \<le> emax"
  with None show ?thesis by (simp add: exponent_def)
next
  case (Some e)
  then have "\<bar>x\<bar> < 2 powi (e + 1)" by (auto simp: find_Some_iff)
  with Some show ?thesis by (simp add: exponent_def)
qed

lemma exponent_lower: "emin < exponent x \<Longrightarrow> 2 powi (exponent x) \<le> \<bar>x\<bar>"
proof (cases "find (\<lambda>e. \<bar>x\<bar> < 2 powi (e + 1)) [emin..emax]")
  case None
  have "emax \<in> set [emin..emax]" by (simp add: emin_def emax_def)
  with None have "\<not> \<bar>x\<bar> < 2 powi (emax + 1)" unfolding find_None_iff by blast
  with None show ?thesis by (simp add: exponent_def)
next
  case (Some e)
  assume low: "emin < exponent x"
  from Some have ex: "exponent x = e" by (simp add: exponent_def)
  from Some obtain i where i: "i < length [emin..emax]" "e = [emin..emax] ! i"
    "\<forall>j<i. \<not> \<bar>x\<bar> < 2 powi ([emin..emax] ! j + 1)"
    by (auto simp: find_Some_iff)
  from i(1,2) have e: "e = emin + int i" by simp
  with low ex have "0 < i" by simp
  then have "i - 1 < i" by simp
  with i(3) have "\<not> \<bar>x\<bar> < 2 powi ([emin..emax] ! (i - 1) + 1)" by blast
  moreover from i(1) \<open>0 < i\<close> have "[emin..emax] ! (i - 1) = emin + int (i - 1)" by simp
  ultimately have "\<not> \<bar>x\<bar> < 2 powi e" using e \<open>0 < i\<close> by (simp add: of_nat_diff)
  with ex show ?thesis by simp
qed

lemma pow2_mono: "a \<le> b \<Longrightarrow> (2::rat) powi a \<le> 2 powi b"
  by (rule power_int_increasing) simp_all

lemma pow2_strict: "a < b \<Longrightarrow> (2::rat) powi a < 2 powi b"
  by (rule power_int_strict_increasing) simp_all

lemma exponent_unique:
  assumes "emin \<le> e" "e \<le> emax" "\<bar>x\<bar> < 2 powi (e + 1)" "e = emin \<or> 2 powi e \<le> \<bar>x\<bar>"
  shows "exponent x = e"
proof (rule antisym)
  show "exponent x \<le> e"
  proof (rule ccontr)
    assume "\<not> exponent x \<le> e"
    then have lt: "e + 1 \<le> exponent x" by simp
    with assms(1) have "emin < exponent x" by simp
    then have "2 powi (exponent x) \<le> \<bar>x\<bar>" by (rule exponent_lower)
    moreover from lt have "(2::rat) powi (e + 1) \<le> 2 powi (exponent x)" by (rule pow2_mono)
    ultimately show False using assms(3) by simp
  qed
  show "e \<le> exponent x"
  proof (rule ccontr)
    assume "\<not> e \<le> exponent x"
    then have lt: "exponent x + 1 \<le> e" by simp
    with assms(2) have "exponent x \<le> emax" by simp
    then have up: "\<bar>x\<bar> < 2 powi (exponent x + 1)" by (rule exponent_upper)
    from lt exponent_range [of x] have "e \<noteq> emin" by simp
    with assms(4) have "2 powi e \<le> \<bar>x\<bar>" by simp
    moreover from lt have "(2::rat) powi (exponent x + 1) \<le> 2 powi e" by (rule pow2_mono)
    ultimately show False using up by simp
  qed
qed

lemma exponent_mono: "\<bar>x\<bar> \<le> \<bar>y\<bar> \<Longrightarrow> exponent x \<le> exponent y"
proof (rule ccontr)
  assume xy: "\<bar>x\<bar> \<le> \<bar>y\<bar>" and "\<not> exponent x \<le> exponent y"
  then have lt: "exponent y + 1 \<le> exponent x" by simp
  with exponent_range [of x] exponent_range [of y]
  have "exponent y \<le> emax" "emin < exponent x" by simp_all
  then have "\<bar>y\<bar> < 2 powi (exponent y + 1)" "2 powi (exponent x) \<le> \<bar>x\<bar>"
    by (simp_all add: exponent_upper exponent_lower)
  moreover from lt have "(2::rat) powi (exponent y + 1) \<le> 2 powi (exponent x)" by (rule pow2_mono)
  ultimately show False using xy by simp
qed


lemma p52: "(2::rat) powi (e - 52) * 2 ^ 52 = 2 powi e"
proof -
  have "(2::rat) powi (e - 52 + 52) = 2 powi (e - 52) * 2 powi 52"
    by (rule power_int_add) simp
  moreover have "(2::rat) powi 52 = 2 ^ 52" by (rule power_int_numeral)
  moreover have "e - 52 + 52 = e" by simp
  ultimately show ?thesis by (simp only:)
qed

lemma p53: "(2::rat) powi (e - 52) * 2 ^ 53 = 2 powi (e + 1)"
proof -
  have "(2::rat) powi (e - 52 + 53) = 2 powi (e - 52) * 2 powi 53"
    by (rule power_int_add) simp
  moreover have "(2::rat) powi 53 = 2 ^ 53" by (rule power_int_numeral)
  moreover have "e - 52 + 53 = e + 1" by simp
  ultimately show ?thesis by (simp only:)
qed

lemma ulp_pos: "0 < ulp x"
  by (simp add: ulp_def)

lemma ulp52: "2 ^ 52 * ulp x = 2 powi (exponent x)"
  unfolding ulp_def using p52 [of "exponent x"] by (simp only: mult.commute)

lemma ulp53: "2 ^ 53 * ulp x = 2 powi (exponent x + 1)"
  unfolding ulp_def using p53 [of "exponent x"] by (simp only: mult.commute)

lemma mant_upper:
  assumes "0 \<le> x" "exponent x \<le> emax"
  shows "rne (x / ulp x) \<le> 2 ^ 53"
proof -
  from assms have "x < 2 powi (exponent x + 1)" using exponent_upper [of x] by simp
  then have "x < 2 ^ 53 * ulp x" by (simp only: ulp53)
  then have "x / ulp x < 2 ^ 53" using ulp_pos [of x] by (simp only: pos_divide_less_eq)
  then have "x / ulp x \<le> of_int (2 ^ 53)" by simp
  then show ?thesis by (rule rne_le)
qed

lemma mant_lower:
  assumes "0 \<le> x" "emin < exponent x"
  shows "2 ^ 52 \<le> rne (x / ulp x)"
proof -
  from assms have "2 powi (exponent x) \<le> x" using exponent_lower [of x] by simp
  then have "2 ^ 52 * ulp x \<le> x" by (simp only: ulp52)
  then have "2 ^ 52 \<le> x / ulp x" using ulp_pos [of x] by (simp only: pos_le_divide_eq)
  then have "of_int (2 ^ 52) \<le> x / ulp x" by simp
  then show ?thesis by (rule rne_ge)
qed

lemma round_double_nonneg: "0 \<le> x \<Longrightarrow> 0 \<le> round_double x"
  using ulp_pos [of x] rne_nonneg [of "x / ulp x"] by (simp add: round_double_def)

lemma round_double_le_twice: "0 \<le> x \<Longrightarrow> round_double x \<le> 2 * x"
proof -
  assume "0 \<le> x"
  then have "0 \<le> x / ulp x" using ulp_pos [of x] by simp
  then have "of_int (rne (x / ulp x)) \<le> 2 * (x / ulp x)" by (rule rne_le_twice)
  then have "of_int (rne (x / ulp x)) * ulp x \<le> 2 * (x / ulp x) * ulp x"
    using ulp_pos [of x] by (intro mult_right_mono) simp_all
  then show ?thesis using ulp_pos [of x] by (simp add: round_double_def)
qed

lemma round_double_upper:
  assumes "0 \<le> x" "exponent x \<le> emax"
  shows "round_double x \<le> 2 powi (exponent x + 1)"
proof -
  from mant_upper [OF assms] have "(of_int (rne (x / ulp x)) :: rat) \<le> of_int (2 ^ 53)"
    by (simp only: of_int_le_iff)
  then have "(of_int (rne (x / ulp x)) :: rat) \<le> 2 ^ 53" by simp
  then have "of_int (rne (x / ulp x)) * ulp x \<le> 2 ^ 53 * ulp x"
    using ulp_pos [of x] by (intro mult_right_mono) simp_all
  then show ?thesis by (simp only: round_double_def ulp53)
qed

lemma round_double_lower:
  assumes "0 \<le> x" "emin < exponent x"
  shows "2 powi (exponent x) \<le> round_double x"
proof -
  from mant_lower [OF assms] have "(of_int (2 ^ 52) :: rat) \<le> of_int (rne (x / ulp x))"
    by (simp only: of_int_le_iff)
  then have "(2 ^ 52 :: rat) \<le> of_int (rne (x / ulp x))" by simp
  then have "2 ^ 52 * ulp x \<le> of_int (rne (x / ulp x)) * ulp x"
    using ulp_pos [of x] by (intro mult_right_mono) simp_all
  then show ?thesis by (simp only: round_double_def ulp52)
qed

lemma round_double_mono:
  assumes "0 \<le> x" "x \<le> y"
  shows "round_double x \<le> round_double y"
proof -
  from assms have y: "0 \<le> y" by simp
  from assms have "\<bar>x\<bar> \<le> \<bar>y\<bar>" by simp
  then have le: "exponent x \<le> exponent y" by (rule exponent_mono)
  show ?thesis
  proof (cases "exponent x = exponent y")
    case True
    then have q: "ulp y = ulp x" by (simp add: ulp_def)
    from assms(2) have "x / ulp x \<le> y / ulp x" using ulp_pos [of x] by (simp add: divide_right_mono)
    then have "rne (x / ulp x) \<le> rne (y / ulp x)" by (rule rne_mono)
    then have "(of_int (rne (x / ulp x)) :: rat) \<le> of_int (rne (y / ulp x))" by simp
    then show ?thesis unfolding round_double_def q
      using ulp_pos [of x] by (intro mult_right_mono) simp_all
  next
    case False
    with le have lt: "exponent x + 1 \<le> exponent y" by simp
    with exponent_range [of x] exponent_range [of y]
    have "exponent x \<le> emax" "emin < exponent y" by simp_all
    then have "round_double x \<le> 2 powi (exponent x + 1)" "2 powi (exponent y) \<le> round_double y"
      using assms(1) y by (simp_all add: round_double_upper round_double_lower)
    moreover from lt have "(2::rat) powi (exponent x + 1) \<le> 2 powi (exponent y)" by (rule pow2_mono)
    ultimately show ?thesis by simp
  qed
qed

lemma round_double_exact:
  assumes "emin \<le> e" "e \<le> emax" "0 \<le> M" "M < 2 ^ 53" "e = emin \<or> 2 ^ 52 \<le> M"
  shows "round_double (of_int M * 2 powi (e - 52)) = of_int M * 2 powi (e - 52)"
proof -
  let ?q = "(2::rat) powi (e - 52)"
  let ?x = "of_int M * ?q"
  have q: "0 < ?q" by simp
  from assms(3) have x0: "0 \<le> ?x" by simp
  from assms(4) have "(of_int M :: rat) < of_int (2 ^ 53)" by (simp only: of_int_less_iff)
  then have "(of_int M :: rat) < 2 ^ 53" by simp
  then have "?x < 2 ^ 53 * ?q" using q by (intro mult_strict_right_mono) simp_all
  moreover have "2 ^ 53 * ?q = 2 powi (e + 1)" using p53 [of e] by (simp only: mult.commute)
  ultimately have "?x < 2 powi (e + 1)" by (simp only:)
  then have up: "\<bar>?x\<bar> < 2 powi (e + 1)" using x0 by simp
  have low: "e = emin \<or> 2 powi e \<le> \<bar>?x\<bar>"
  proof (cases "e = emin")
    case False
    with assms(5) have "2 ^ 52 \<le> M" by simp
    then have "(of_int (2 ^ 52) :: rat) \<le> of_int M" by (simp only: of_int_le_iff)
    then have "(2 ^ 52 :: rat) \<le> of_int M" by simp
    then have "2 ^ 52 * ?q \<le> ?x" using q by (intro mult_right_mono) simp_all
    moreover have "2 ^ 52 * ?q = 2 powi e" using p52 [of e] by (simp only: mult.commute)
    ultimately have "2 powi e \<le> ?x" by (simp only:)
    then show ?thesis using x0 by simp
  qed simp
  from assms(1,2) up low have "exponent ?x = e" by (rule exponent_unique)
  then have "ulp ?x = ?q" by (simp add: ulp_def)
  then show ?thesis using q by (simp add: round_double_def rne_of_int)
qed

lemma round_double_idem:
  assumes "0 \<le> x" "finite_double (round_double x)"
  shows "round_double (round_double x) = round_double x"
proof -
  let ?e = "exponent x"
  let ?M = "rne (x / ulp x)"
  have rd: "round_double x = of_int ?M * 2 powi (?e - 52)" by (simp add: round_double_def ulp_def)
  from assms(1) have M0: "0 \<le> ?M" using ulp_pos [of x] by (intro rne_nonneg) simp
  from assms have fin: "round_double x < 2 powi (emax + 1)"
    using round_double_nonneg [of x] by (simp add: finite_double_def)
  have emax: "?e \<le> emax"
  proof (rule ccontr)
    assume "\<not> ?e \<le> emax"
    with exponent_range [of x] have e: "?e = emax + 1" by simp
    then have "emin < ?e" by (simp add: emin_def emax_def)
    with assms(1) have "2 powi ?e \<le> round_double x" by (rule round_double_lower)
    with fin e show False by simp
  qed
  with assms(1) have M53: "?M \<le> 2 ^ 53" by (rule mant_upper)
  have emin: "emin \<le> ?e" using exponent_range [of x] by simp
  have M52: "?e = emin \<or> 2 ^ 52 \<le> ?M"
    using mant_lower [OF assms(1)] emin by fastforce
  show ?thesis
  proof (cases "?M < 2 ^ 53")
    case True
    from round_double_exact [OF emin emax M0 True M52] show ?thesis by (simp add: rd)
  next
    case False
    with M53 have M: "?M = 2 ^ 53" by simp
    have "round_double x = 2 ^ 53 * ulp x" by (simp add: round_double_def M)
    then have val: "round_double x = 2 powi (?e + 1)" by (simp only: ulp53)
    with fin have "?e + 1 < emax + 1"
      by (metis pow2_mono not_le)
    then have e1: "?e + 1 \<le> emax" by simp
    from emin have e0: "emin \<le> ?e + 1" by simp
    have "round_double (of_int (2 ^ 52) * 2 powi (?e + 1 - 52)) = of_int (2 ^ 52) * 2 powi (?e + 1 - 52)"
      by (rule round_double_exact [OF e0 e1]) simp_all
    moreover have "(2::rat) powi (?e + 1 - 52) * 2 ^ 52 = 2 powi (?e + 1)" by (rule p52)
    then have "of_int (2 ^ 52) * (2::rat) powi (?e + 1 - 52) = 2 powi (?e + 1)"
      by (simp add: mult.commute)
    ultimately show ?thesis by (simp only: val)
  qed
qed

lemma round_double_0: "round_double 0 = 0"
  by (simp add: round_double_def rne_def)

lemma round_double_of_nat:
  assumes "k < 2 ^ 53"
  shows "round_double (of_nat k) = of_nat k"
proof (cases "k = 0")
  case True
  then show ?thesis by (simp add: round_double_0)
next
  case False
  let ?x = "of_nat k :: rat"
  let ?e = "exponent ?x"
  from False have x1: "1 \<le> ?x" by simp
  from assms have x53: "?x < 2 ^ 53"
    by (metis of_nat_less_iff of_nat_numeral of_nat_power)
  have e0: "0 \<le> ?e"
  proof (rule ccontr)
    assume "\<not> 0 \<le> ?e"
    then have neg: "?e + 1 \<le> 0" by simp
    then have "?e \<le> emax" by (simp add: emax_def)
    then have "\<bar>?x\<bar> < 2 powi (?e + 1)" by (rule exponent_upper)
    moreover from neg have "(2::rat) powi (?e + 1) \<le> 2 powi 0" by (rule pow2_mono)
    ultimately show False using x1 by simp
  qed
  have e52: "?e \<le> 52"
  proof (rule ccontr)
    assume "\<not> ?e \<le> 52"
    then have big: "53 \<le> ?e" by simp
    then have "emin < ?e" by (simp add: emin_def)
    then have "2 powi ?e \<le> \<bar>?x\<bar>" by (rule exponent_lower)
    moreover from big have "(2::rat) powi 53 \<le> 2 powi ?e" by (rule pow2_mono)
    ultimately show False using x53 by simp
  qed
  have "ulp ?x = 2 powi (- (52 - ?e))" by (simp add: ulp_def)
  also have "\<dots> = 1 / 2 powi (52 - ?e)" by (rule power_int_minus_divide)
  also have "(2::rat) powi (52 - ?e) = 2 ^ nat (52 - ?e)" using e52 by (intro power_int_nonneg_exp) simp
  finally have u: "ulp ?x = 1 / 2 ^ nat (52 - ?e)" .
  have "?x / ulp ?x = of_int (int k * 2 ^ nat (52 - ?e))" by (simp add: u)
  then have "rne (?x / ulp ?x) = int k * 2 ^ nat (52 - ?e)" by (simp only: rne_of_int)
  then show ?thesis by (simp add: round_double_def u)
qed

subsection \<open>The table\<close>

lemma to_double_finite:
  "0 \<le> x \<Longrightarrow> round_double x < 2 ^ 1024 \<Longrightarrow> to_double x = Finite (round_double x)"
  using round_double_nonneg [of x] by (simp add: to_double_def finite_double_def emax_def)

lemma to_double_cases:
  "0 \<le> x \<Longrightarrow> to_double x = Finite (round_double x) \<and> finite_double (round_double x)
     \<or> to_double x = Infinity False"
  using round_double_nonneg [of x] by (auto simp: to_double_def Let_def)

lemma push_cumsum_infinity:
  "last (push_cumsum (cs @ [Infinity s]) (map Finite ws)) = Infinity s"
proof (induction ws arbitrary: cs)
  case Nil
  show ?case by simp
next
  case (Cons w ws)
  from Cons [of "cs @ [Infinity s]"] show ?case by simp
qed

lemma push_cumsum_finite:
  "\<forall>w \<in> set ws. 0 \<le> w \<Longrightarrow> 0 \<le> a \<Longrightarrow> round_double a = a
   \<Longrightarrow> last (push_cumsum (cs @ [Finite a]) (map Finite ws)) = Finite t
   \<Longrightarrow> push_cumsum (cs @ [Finite a]) (map Finite ws) = cs @ map Finite (a # psums a ws)
       \<and> sorted (a # psums a ws) \<and> last (a # psums a ws) = t"
proof (induction ws arbitrary: a cs)
  case Nil
  then show ?case by simp
next
  case (Cons w ws)
  let ?a = "round_double (a + w)"
  from Cons.prems have aw: "0 \<le> a + w" and w: "0 \<le> w" by simp_all
  have step: "push_cumsum (cs @ [Finite a]) (map Finite (w # ws))
      = push_cumsum ((cs @ [Finite a]) @ [to_double (a + w)]) (map Finite ws)"
    by simp
  from to_double_cases [OF aw] show ?case
  proof
    assume "to_double (a + w) = Infinity False"
    with step push_cumsum_infinity [of "cs @ [Finite a]" False ws] Cons.prems(4)
    show ?thesis by simp
  next
    assume fin: "to_double (a + w) = Finite ?a \<and> finite_double ?a"
    from aw have a0: "0 \<le> ?a" by (rule round_double_nonneg)
    from aw fin have idem: "round_double ?a = ?a" by (intro round_double_idem) simp_all
    from Cons.prems(2) w have "round_double a \<le> ?a" by (intro round_double_mono) simp_all
    with Cons.prems(3) have le: "a \<le> ?a" by simp
    from Cons.prems(1) have ws: "\<forall>w \<in> set ws. 0 \<le> w" by simp
    from Cons.prems(4) step fin
    have "last (push_cumsum ((cs @ [Finite a]) @ [Finite ?a]) (map Finite ws)) = Finite t" by simp
    from Cons.IH [OF ws a0 idem this]
    have IH: "push_cumsum ((cs @ [Finite a]) @ [Finite ?a]) (map Finite ws)
        = (cs @ [Finite a]) @ map Finite (?a # psums ?a ws)"
      "sorted (?a # psums ?a ws)" "last (?a # psums ?a ws) = t"
      by simp_all
    from IH(1) step fin
    have "push_cumsum (cs @ [Finite a]) (map Finite (w # ws)) = cs @ map Finite (a # psums a (w # ws))"
      by simp
    moreover from IH(2) le have "sorted (a # psums a (w # ws))" by auto
    moreover from IH(3) have "last (a # psums a (w # ws)) = t" by simp
    ultimately show ?thesis by blast
  qed
qed

lemma length_psums: "length (psums a ws) = length ws"
  by (induction ws arbitrary: a) auto

lemma of_nat_le_pow: "n \<le> 2 ^ j \<Longrightarrow> (of_nat n :: rat) \<le> 2 ^ j"
  by (metis of_nat_le_iff of_nat_numeral of_nat_power)

lemma round_double_pow2:
  assumes "j \<le> 1023"
  shows "round_double (2 ^ j) = 2 ^ j"
proof -
  have "(2::rat) powi (int j - 52) * 2 ^ 52 = 2 powi (int j)" by (rule p52)
  then have eq: "of_int (2 ^ 52) * (2::rat) powi (int j - 52) = 2 ^ j"
    by (simp add: mult.commute)
  from assms have "emin \<le> int j" "int j \<le> emax" by (simp_all add: emin_def emax_def)
  then have "round_double (of_int (2 ^ 52) * 2 powi (int j - 52)) = of_int (2 ^ 52) * 2 powi (int j - 52)"
    by (rule round_double_exact) simp_all
  then show ?thesis by (simp only: eq)
qed

lemma round_double_cap:
  assumes "0 \<le> x" "x \<le> 2 ^ j" "j \<le> 1023"
  shows "round_double x \<le> 2 ^ j"
  using round_double_mono [OF assms(1,2)] round_double_pow2 [OF assms(3)] by simp

lemma ratio_bounds:
  assumes n: "n \<le> 2 ^ 62" and c: "0 \<le> c" "c \<le> t" and t: "0 < t" "of_nat n * t \<le> 2 ^ 1022"
  shows "share n (Finite c) (Finite t) = Inr (nat \<lfloor>ratio n c t\<rfloor>)"
    and "0 \<le> ratio n c t" and "ratio n c t \<le> 2 ^ 63"
proof -
  let ?N = "round_double (of_nat n)"
  let ?P = "round_double (?N * c)"
  let ?Z = "round_double (?P / t)"
  have N0: "0 \<le> ?N" by (intro round_double_nonneg) simp
  from n have "(of_nat n :: rat) \<le> 2 ^ 62" by (rule of_nat_le_pow)
  then have N62: "?N \<le> 2 ^ 62" by (intro round_double_cap) simp_all
  then have "?N < 2 ^ 1024" by simp
  then have Nfin: "of_size_t n = Finite ?N"
    unfolding of_size_t_def by (intro to_double_finite) simp_all
  have "?N \<le> 2 * of_nat n" by (intro round_double_le_twice) simp
  with t have "?N * t \<le> 2 * of_nat n * t" by (intro mult_right_mono) simp_all
  with t(2) have Nt: "?N * t \<le> 2 ^ 1023" by simp
  from N0 c have Nc0: "0 \<le> ?N * c" by simp
  from N0 c have Nc: "?N * c \<le> ?N * t" by (intro mult_left_mono)
  with Nt have "?N * c \<le> 2 ^ 1023" by simp
  with Nc0 have "?P \<le> 2 ^ 1023" by (intro round_double_cap) simp_all
  then have "?P < 2 ^ 1024" by simp
  with Nc0 have Pfin: "to_double (?N * c) = Finite ?P" by (intro to_double_finite)
  from Nc0 have P0: "0 \<le> ?P" by (rule round_double_nonneg)
  from Nc0 have "?P \<le> 2 * (?N * c)" by (rule round_double_le_twice)
  with Nc have Pt: "?P \<le> 2 * (?N * t)" by simp
  from P0 t have Q0: "0 \<le> ?P / t" by simp
  from Pt t have "?P / t \<le> 2 * (?N * t) / t" by (intro divide_right_mono) simp_all
  with t have "?P / t \<le> 2 * ?N" by simp
  with N62 have "?P / t \<le> 2 ^ 63" by simp
  with Q0 have Z63: "?Z \<le> 2 ^ 63" by (intro round_double_cap) simp_all
  from Q0 have Z0: "0 \<le> ?Z" by (rule round_double_nonneg)
  from Z63 have "?Z < 2 ^ 1024" by simp
  with Q0 have Zfin: "to_double (?P / t) = Finite ?Z" by (intro to_double_finite)
  from Z0 Z63 have rng: "\<not> (?Z \<le> - 1 \<or> 2 ^ 64 \<le> ?Z)" by simp
  from t have "t \<noteq> 0" by simp
  with Nfin Pfin Zfin rng show "share n (Finite c) (Finite t) = Inr (nat \<lfloor>ratio n c t\<rfloor>)"
    by (simp add: share_def ratio_def del: of_nat_numeral)
  from Z0 show "0 \<le> ratio n c t" by (simp add: ratio_def)
  from Z63 show "ratio n c t \<le> 2 ^ 63" by (simp add: ratio_def)
qed

lemma ratio_mono:
  assumes "0 \<le> c" "c \<le> c'" "0 < t"
  shows "ratio n c t \<le> ratio n c' t"
proof -
  let ?N = "round_double (of_nat n)"
  have N0: "0 \<le> ?N" by (intro round_double_nonneg) simp
  with assms have Nc0: "0 \<le> ?N * c" and "?N * c \<le> ?N * c'"
    by (simp_all add: mult_left_mono)
  then have P: "round_double (?N * c) \<le> round_double (?N * c')" by (intro round_double_mono)
  from Nc0 have "0 \<le> round_double (?N * c)" by (rule round_double_nonneg)
  with assms(3) have "0 \<le> round_double (?N * c) / t" by simp
  moreover from P assms(3) have "round_double (?N * c) / t \<le> round_double (?N * c') / t"
    by (intro divide_right_mono) simp_all
  ultimately show ?thesis unfolding ratio_def by (rule round_double_mono)
qed

lemma alignup_nowrap:
  assumes "0 < m" "m < 2 ^ 64" "x \<le> 2 ^ 63"
  shows "alignup x m = (x + m - 1) div m * m"
proof -
  have "(x + m - 1) div m * m < 2 ^ 64"
  proof (cases "x \<le> m")
    case True
    with assms(1) have "x + m - 1 < 2 * m" by simp
    then have "(x + m - 1) div m < 2" using assms(1) by (simp add: div_less_iff_less_mult)
    then have "(x + m - 1) div m \<le> 1" by simp
    then have "(x + m - 1) div m * m \<le> 1 * m" by (rule mult_le_mono1)
    with assms(2) show ?thesis by linarith
  next
    case False
    have "(x + m - 1) div m * m \<le> x + m - 1" by (rule div_times_less_eq_dividend)
    moreover from False assms(3) have "x + m - 1 < 2 ^ 63 + 2 ^ 63" by linarith
    moreover have "(2::nat) ^ 63 + 2 ^ 63 = 2 ^ 64" by simp
    ultimately show ?thesis by (simp only: le_less_trans)
  qed
  then show ?thesis by (simp add: alignup_def)
qed

lemma alignup_mono:
  assumes "a \<le> b" "0 < m" "m < 2 ^ 64" "b \<le> 2 ^ 63"
  shows "alignup a m \<le> alignup b m"
proof -
  from assms have "a \<le> 2 ^ 63" by simp
  with assms show ?thesis
    by (simp add: alignup_nowrap div_le_mono mult_le_mono1)
qed

lemma bound_le: "bound m n cs j \<le> n"
  by (simp add: bound_def)

lemma fill_parts_result:
  "k < length p \<Longrightarrow> k < 2 ^ 32 \<Longrightarrow>
   \<forall>j. d < j \<and> j \<le> k \<longrightarrow> share n (cumsum ! j) (last cumsum) = Inr (x j) \<Longrightarrow>
   \<exists>r. fill_parts m n cumsum k d p = Some (Inr r) \<and> length r = length p
     \<and> (\<forall>j. r ! j = (if d < j \<and> j \<le> k then min n (alignup (x j) m) else p ! j))"
proof (induction "k - d" arbitrary: d p)
  case 0
  then have "\<not> d < k" by simp
  then show ?case by (subst fill_parts.simps) auto
next
  case (Suc i)
  then have dk: "d < k" by simp
  with Suc.prems(2) have succ: "uint_succ d = d + 1" by (simp add: uint_succ_def)
  let ?p = "p[d + 1 := min n (alignup (x (d + 1)) m)]"
  from dk Suc.prems(3) have sh: "share n (cumsum ! (d + 1)) (last cumsum) = Inr (x (d + 1))" by simp
  from Suc.hyps(2) have i: "i = k - (d + 1)" by simp
  from Suc.prems(1) have len: "k < length ?p" by simp
  from Suc.prems(3) have rest: "\<forall>j. d + 1 < j \<and> j \<le> k \<longrightarrow> share n (cumsum ! j) (last cumsum) = Inr (x j)"
    by simp
  from Suc.hyps(1) [OF i len Suc.prems(2) rest]
  obtain r where r: "fill_parts m n cumsum k (d + 1) ?p = Some (Inr r)" "length r = length ?p"
    "\<forall>j. r ! j = (if d + 1 < j \<and> j \<le> k then min n (alignup (x j) m) else ?p ! j)"
    by blast
  have eq: "fill_parts m n cumsum k d p = Some (Inr r)"
    using dk sh r(1) succ by (subst fill_parts.simps) simp
  have "r ! j = (if d < j \<and> j \<le> k then min n (alignup (x j) m) else p ! j)" for j
  proof (cases "j = d + 1")
    case True
    with dk Suc.prems(1) r(3) show ?thesis by simp
  next
    case False
    with r(3) show ?thesis by auto
  qed
  with eq r(2) show ?case by simp
qed

lemma fill_parts_wraps:
  assumes "fill_parts m n cumsum k d p = Some y"
  shows "2 ^ 32 \<le> k \<longrightarrow> d < 2 ^ 32 \<longrightarrow> isl y"
proof (rule fill_parts.raw_induct
    [where P = "\<lambda>m n cumsum k d p y. 2 ^ 32 \<le> k \<longrightarrow> d < 2 ^ 32 \<longrightarrow> isl y", OF _ assms])
  fix f :: "nat \<Rightarrow> nat \<Rightarrow> double list \<Rightarrow> nat \<Rightarrow> nat \<Rightarrow> nat list \<Rightarrow> (error + nat list) option"
  fix m n cumsum k d p y
  assume IH: "\<And>m n cumsum k d p y. f m n cumsum k d p = Some y \<Longrightarrow>
      2 ^ 32 \<le> k \<longrightarrow> d < 2 ^ 32 \<longrightarrow> isl y"
  assume body: "(if d < k then
        (case share n (cumsum ! uint_succ d) (last cumsum) of
           Inl e \<Rightarrow> Some (Inl e)
         | Inr x \<Rightarrow> f m n cumsum k (uint_succ d) (p[uint_succ d := min n (alignup x m)]))
      else Some (Inr p)) = Some y"
  show "2 ^ 32 \<le> k \<longrightarrow> d < 2 ^ 32 \<longrightarrow> isl y"
  proof (intro impI)
    assume k: "(2::nat) ^ 32 \<le> k" and d: "d < 2 ^ 32"
    then have dk: "d < k" by simp
    have succ: "uint_succ d < 2 ^ 32" by (simp add: uint_succ_def)
    show "isl y"
    proof (cases "share n (cumsum ! uint_succ d) (last cumsum)")
      case (Inl e)
      with body dk show ?thesis by auto
    next
      case (Inr x)
      with body dk
      have "f m n cumsum k (uint_succ d) (p[uint_succ d := min n (alignup x m)]) = Some y"
        by simp
      from IH [OF this] k succ show ?thesis by simp
    qed
  qed
qed

lemma partition_never_returns:
  assumes "2 ^ 32 \<le> length qs"
  shows "\<not> returns_table (partition_by_vector_perf m perf n qs)"
proof -
  let ?f = "fill_parts m n (push_cumsum [Finite 0] (map perf qs)) (length qs) 0
      (replicate (length qs + 1) 0)"
  have "(1::nat) < 2 ^ 32" by simp
  with assms have big: "1 < length qs" by linarith
  have "\<not> returns_table (case ?f of None \<Rightarrow> None | Some (Inl e) \<Rightarrow> Some (Inl e)
      | Some (Inr p') \<Rightarrow> Some (Inr (p'[length p' - 1 := n])))"
  proof (cases ?f)
    case None
    then show ?thesis by (simp add: returns_table_def)
  next
    case (Some y)
    from fill_parts_wraps [OF Some] assms have "isl y" by simp
    with Some show ?thesis by (cases y) (simp_all add: returns_table_def)
  qed
  with big show ?thesis by (simp add: partition_by_vector_perf_def Let_def)
qed

subsection \<open>Evaluation at given inputs\<close>

lemma round_double_at:
  assumes "emin \<le> e" "e \<le> emax" "\<bar>x\<bar> < 2 powi (e + 1)" "e = emin \<or> 2 powi e \<le> \<bar>x\<bar>"
  shows "round_double x = of_int (rne (x / 2 powi (e - 52))) * 2 powi (e - 52)"
proof -
  from assms have "exponent x = e" by (rule exponent_unique)
  then show ?thesis by (simp add: round_double_def ulp_def)
qed

lemma exponent_overflow:
  assumes "2 powi (emax + 1) \<le> \<bar>x\<bar>"
  shows "exponent x = emax + 1"
proof (rule ccontr)
  assume "exponent x \<noteq> emax + 1"
  with exponent_range [of x] have le: "exponent x \<le> emax" by simp
  then have "\<bar>x\<bar> < 2 powi (exponent x + 1)" by (rule exponent_upper)
  moreover from le have "(2::rat) powi (exponent x + 1) \<le> 2 powi (emax + 1)"
    by (intro pow2_mono) simp
  ultimately show False using assms by simp
qed

lemma round_double_numeral:
  "(numeral k :: nat) < 2 ^ 53 \<Longrightarrow> round_double (numeral k) = numeral k"
  using round_double_of_nat [of "numeral k"] by simp

lemma round_double_1: "round_double 1 = 1"
  using round_double_of_nat [of 1] by simp

lemma floor_size_max: "\<lfloor>18446744073709551615 / 2048 :: rat\<rfloor> = 9007199254740991"
  by (rule floor_unique) simp_all

lemma round_double_size_max: "round_double (2 ^ 64 - 1) = 2 ^ 64"
  by (subst round_double_at [of 63]) (simp_all add: emin_def emax_def rne_def Let_def floor_size_max)

lemma floor_near_one: "\<lfloor>1152921504606846977 / 256 :: rat\<rfloor> = 4503599627370496"
  by (rule floor_unique) simp_all

lemma round_double_near_one: "round_double (1 + 1 / 2 ^ 60) = 1"
  by (subst round_double_at [of 0]) (simp_all add: emin_def emax_def rne_def Let_def floor_near_one)

lemma round_double_huge: "round_double (2 ^ 1025) = 2 ^ 1025"
proof -
  have "exponent (2 ^ 1025) = emax + 1" by (rule exponent_overflow) (simp add: emax_def)
  then show ?thesis by (simp add: round_double_def ulp_def emax_def rne_def)
qed

lemma rne_minus: "rne (- y) = - rne y"
proof (cases "y = of_int \<lfloor>y\<rfloor>")
  case True
  then obtain k where "y = of_int k" ..
  then have "- y = of_int (- k)" by simp
  then have "rne (- y) = - k" by (simp only: rne_of_int)
  with \<open>y = of_int k\<close> show ?thesis by (simp add: rne_of_int)
next
  case False
  have "\<lfloor>- y\<rfloor> = - \<lceil>y\<rceil>" by (simp add: ceiling_def)
  with False have fl: "\<lfloor>- y\<rfloor> = - \<lfloor>y\<rfloor> - 1" by (simp add: ceiling_altdef)
  have r: "- y - of_int (- \<lfloor>y\<rfloor> - 1) = 1 - (y - of_int \<lfloor>y\<rfloor>)" by simp
  have par: "even (- \<lfloor>y\<rfloor> - 1) \<longleftrightarrow> odd \<lfloor>y\<rfloor>" by simp
  show ?thesis
    unfolding rne_def Let_def fl r par by (auto simp: not_less)
qed

lemma round_double_minus: "round_double (- x) = - round_double x"
proof -
  have "exponent (- x) = exponent x" by (simp add: exponent_def)
  then have "ulp (- x) = ulp x" by (simp add: ulp_def)
  then show ?thesis by (simp add: round_double_def rne_minus)
qed

lemmas round_double_powers = round_double_pow2 [of 64, simplified] round_double_pow2 [of 63, simplified]
  round_double_pow2 [of 65, simplified] round_double_pow2 [of 1023, simplified]

lemmas partition_eval = partition_by_vector_perf_def fill_parts.simps share_def of_size_t_def
  to_double_def finite_double_def emax_def uint_succ_def alignup_def
  round_double_numeral round_double_1 round_double_0

text \<open>
  C1, as amended. For a list of \<open>k\<close> queues, \<open>1 \<le> k < 2 ^ 32\<close>, the
  performance-weighted partitioner returns a table of length \<open>k + 1\<close> that is
  non-decreasing, starts at 0, ends at \<open>n\<close>, and has every entry bounded by \<open>n\<close>:
  with one queue for every length \<open>n\<close>, and with more than one queue provided that
  \<open>n\<close> is at most \<open>2 ^ 62\<close>, every measured weight is a finite non-negative
  \<open>double\<close>, and the total \<open>cumsum.back()\<close>, as accumulated in \<open>double\<close> arithmetic,
  is positive with \<open>n\<close> times the total at most \<open>2 ^ 1022\<close>. Some of the weights,
  not all, may be zero. The alignment \<open>m\<close> is any positive \<open>size_t\<close>.
\<close>

theorem partition_by_vector_perf_table:
  assumes k: "1 \<le> length qs" "length qs < 2 ^ 32"
    and m: "1 < length qs \<longrightarrow> 0 < m \<and> m < 2 ^ 64"
    and n: "1 < length qs \<longrightarrow> n \<le> 2 ^ 62"
    and weights: "1 < length qs \<longrightarrow> (\<forall>q \<in> set qs. \<exists>w. perf q = Finite w \<and> 0 \<le> w)"
    and tot: "1 < length qs \<longrightarrow>
      (\<exists>t. last (push_cumsum [Finite 0] (map perf qs)) = Finite t \<and> 0 < t
         \<and> of_nat n * t \<le> 2 ^ 1022)"
  shows "\<exists>t. partition_by_vector_perf m perf n qs = Some (Inr t)
    \<and> length t = length qs + 1 \<and> sorted t \<and> t ! 0 = 0 \<and> t ! length qs = n
    \<and> (\<forall>x \<in> set t. x \<le> n)"
proof (cases "1 < length qs")
  case False
  with k have len: "length qs = 1" by simp
  then have "partition_by_vector_perf m perf n qs = Some (Inr [0, n])"
    by (simp add: partition_by_vector_perf_def)
  with len show ?thesis by simp
next
  case True
  from True m have m: "0 < m" "m < 2 ^ 64" by simp_all
  from True n have n: "n \<le> 2 ^ 62" by simp
  define ws where "ws = map (the_finite \<circ> perf) qs"
  define kk where "kk = length qs"
  from True weights have fin: "\<forall>q \<in> set qs. \<exists>w. perf q = Finite w \<and> 0 \<le> w" by simp
  have ws_map: "map perf qs = map Finite ws"
    unfolding ws_def using fin by (auto simp: the_finite_def)
  have ws_nonneg: "\<forall>w \<in> set ws. 0 \<le> w"
    unfolding ws_def using fin by (auto simp: the_finite_def)
  from True tot obtain t where t: "last (push_cumsum [Finite 0] (map perf qs)) = Finite t"
    "0 < t" "of_nat n * t \<le> 2 ^ 1022" by blast
  define cs where "cs = 0 # psums 0 ws"
  from t(1) have "last (push_cumsum ([] @ [Finite 0]) (map Finite ws)) = Finite t"
    by (simp add: ws_map)
  from push_cumsum_finite [OF ws_nonneg _ round_double_0 this]
  have cum: "push_cumsum [Finite 0] (map perf qs) = map Finite cs" and srt: "sorted cs"
    and lst: "last cs = t"
    by (simp_all add: cs_def ws_map)
  have lcs: "length cs = kk + 1" by (simp add: cs_def length_psums ws_def kk_def)
  have cs0: "cs ! 0 = 0" by (simp add: cs_def)
  have cs_rng: "0 \<le> cs ! j \<and> cs ! j \<le> t" if "j \<le> kk" for j
  proof -
    from srt lcs that have "cs ! 0 \<le> cs ! j" by (intro sorted_nth_mono) simp_all
    moreover from srt lcs that have "cs ! j \<le> cs ! kk" by (intro sorted_nth_mono) simp_all
    moreover have "cs ! kk = t"
    proof -
      have "cs \<noteq> []" by (simp add: cs_def)
      then have "last cs = cs ! (length cs - 1)" by (rule last_conv_nth)
      with lcs lst show ?thesis by simp
    qed
    ultimately show ?thesis using cs0 by simp
  qed
  let ?cum = "map Finite cs"
  have ne: "cs \<noteq> []" by (simp add: cs_def)
  then have lastcum: "last ?cum = Finite t" using lst by (simp add: last_map)
  have sh: "\<forall>j. 0 < j \<and> j \<le> kk \<longrightarrow>
      share n (?cum ! j) (last ?cum) = Inr (nat \<lfloor>ratio n (cs ! j) t\<rfloor>)"
  proof (intro allI impI)
    fix j assume j: "0 < j \<and> j \<le> kk"
    with lcs have "?cum ! j = Finite (cs ! j)" by simp
    with ratio_bounds(1) [OF n _ _ t(2,3), of "cs ! j"] cs_rng [of j] j lastcum
    show "share n (?cum ! j) (last ?cum) = Inr (nat \<lfloor>ratio n (cs ! j) t\<rfloor>)" by simp
  qed
  have kp: "kk < length (replicate (kk + 1) (0::nat))" by simp
  have k32: "kk < 2 ^ 32" using k(2) by (simp add: kk_def)
  from fill_parts_result [OF kp k32 sh, of m]
  obtain r where r: "fill_parts m n ?cum kk 0 (replicate (kk + 1) 0) = Some (Inr r)"
      "length r = kk + 1"
      "\<forall>j. r ! j = (if 0 < j \<and> j \<le> kk then min n (alignup (nat \<lfloor>ratio n (cs ! j) t\<rfloor>) m)
                      else replicate (kk + 1) 0 ! j)"
    by auto
  define tb where "tb = r[kk := n]"
  have res: "partition_by_vector_perf m perf n qs = Some (Inr tb)"
    using True r(1,2) by (simp add: partition_by_vector_perf_def cum kk_def tb_def)
  have lt: "length tb = kk + 1" by (simp add: tb_def r(2))
  have nth: "tb ! j = (if j = kk then n else if 0 < j then bound m n cs j else 0)" if "j \<le> kk" for j
    using that r(2,3) lst by (simp add: tb_def bound_def)
  have le_n: "tb ! j \<le> n" if "j \<le> kk" for j
    using that by (simp add: nth bound_le)
  have bmono: "bound m n cs i \<le> bound m n cs j" if "i \<le> j" "j \<le> kk" for i j
  proof -
    from that srt lcs have "cs ! i \<le> cs ! j" by (intro sorted_nth_mono) simp_all
    with cs_rng [of i] that t(2) have "ratio n (cs ! i) t \<le> ratio n (cs ! j) t"
      by (intro ratio_mono) simp_all
    then have le: "nat \<lfloor>ratio n (cs ! i) t\<rfloor> \<le> nat \<lfloor>ratio n (cs ! j) t\<rfloor>"
      by (intro nat_mono floor_mono)
    from ratio_bounds(3) [OF n _ _ t(2,3), of "cs ! j"] cs_rng [OF that(2)]
    have "ratio n (cs ! j) t \<le> 2 ^ 63" by simp
    then have "\<lfloor>ratio n (cs ! j) t\<rfloor> \<le> \<lfloor>2 ^ 63 :: rat\<rfloor>" by (rule floor_mono)
    then have "\<lfloor>ratio n (cs ! j) t\<rfloor> \<le> 2 ^ 63" by simp
    then have "nat \<lfloor>ratio n (cs ! j) t\<rfloor> \<le> nat (2 ^ 63)" by (rule nat_mono)
    then have "nat \<lfloor>ratio n (cs ! j) t\<rfloor> \<le> 2 ^ 63" by simp
    with le m have "alignup (nat \<lfloor>ratio n (cs ! i) t\<rfloor>) m \<le> alignup (nat \<lfloor>ratio n (cs ! j) t\<rfloor>) m"
      by (intro alignup_mono)
    then show ?thesis unfolding bound_def lst by (intro min.mono order_refl)
  qed
  have "sorted tb"
  proof (subst sorted_iff_nth_mono, intro allI impI)
    fix i j assume ij: "i \<le> j" "j < length tb"
    with lt have jk: "j \<le> kk" and ik: "i \<le> kk" by simp_all
    show "tb ! i \<le> tb ! j"
    proof (cases "j = kk")
      case True
      with le_n [OF ik] nth [OF jk] show ?thesis by simp
    next
      case False
      with jk ij have lt': "j < kk" "i < kk" by simp_all
      show ?thesis
      proof (cases "0 < i")
        case False
        with ik nth [of i] lt' show ?thesis by simp
      next
        case True
        with ij have "0 < j" by simp
        with True lt' nth [OF ik] nth [OF jk] bmono [OF ij(1) jk]
        show ?thesis by simp
      qed
    qed
  qed
  moreover have "tb ! 0 = 0"
  proof -
    from True have "kk \<noteq> 0" by (auto simp: kk_def)
    with nth [of 0] show ?thesis by simp
  qed
  moreover have "tb ! length qs = n" using nth [of kk] by (simp add: kk_def)
  moreover have "\<forall>x \<in> set tb. x \<le> n"
  proof
    fix x assume "x \<in> set tb"
    then obtain j where "j < length tb" "x = tb ! j" by (auto simp: in_set_conv_nth)
    with lt le_n [of j] show "x \<le> n" by simp
  qed
  ultimately show ?thesis using res lt by (simp add: kk_def)
qed

theorem partition_by_vector_perf_table_witness:
  "partition_by_vector_perf 16 (\<lambda>q. if q = 0 then Finite 1 else if q = 1 then Finite 0 else Finite 3) 100 [0, 1, 2]
     = Some (Inr [0, 32, 32, 100])
   \<and> (\<exists>t. partition_by_vector_perf 16 (\<lambda>q. if q = 0 then Finite 1 else if q = 1 then Finite 0 else Finite 3) 100 [0, 1, 2]
           = Some (Inr t)
         \<and> length t = 4 \<and> sorted t \<and> t ! 0 = 0 \<and> t ! 3 = 100)
   \<and> partition_by_vector_perf 16 (\<lambda>q. if q = 0 then Finite 1 else Finite (1 / 2 ^ 60)) 17 [0, 1]
     = Some (Inr [0, 17, 17])
   \<and> partition_by_vector_perf 16 (\<lambda>q. NaN) (2 ^ 64 - 1) [0] = Some (Inr [0, 2 ^ 64 - 1])"
proof -
  let ?perf = "\<lambda>q::cl_queue. if q = 0 then Finite 1 else if q = 1 then Finite 0 else Finite 3"
  have h1: "1 \<le> length [0, 1, 2 :: cl_queue]" by simp
  have h2: "length [0, 1, 2 :: cl_queue] < 2 ^ 32" by simp
  have h3: "1 < length [0, 1, 2 :: cl_queue] \<longrightarrow> 0 < (16::nat) \<and> (16::nat) < 2 ^ 64" by simp
  have h4: "1 < length [0, 1, 2 :: cl_queue] \<longrightarrow> (100::nat) \<le> 2 ^ 62" by simp
  have h6: "1 < length [0, 1, 2 :: cl_queue] \<longrightarrow>
      (\<forall>q \<in> set [0, 1, 2 :: cl_queue]. \<exists>w. ?perf q = Finite w \<and> 0 \<le> w)" by simp
  have h7: "1 < length [0, 1, 2 :: cl_queue] \<longrightarrow>
      (\<exists>t. last (push_cumsum [Finite 0] (map ?perf [0, 1, 2])) = Finite t \<and> 0 < t
         \<and> of_nat 100 * t \<le> 2 ^ 1022)"
    by (simp add: to_double_def finite_double_def emax_def round_double_numeral round_double_1)
  have "partition_by_vector_perf 16 ?perf 100 [0, 1, 2] = Some (Inr [0, 32, 32, 100])"
    by (simp add: partition_eval)
  moreover have "partition_by_vector_perf 16 (\<lambda>q. if q = 0 then Finite 1 else Finite (1 / 2 ^ 60)) 17 [0, 1]
      = Some (Inr [0, 17, 17])"
    using round_double_near_one by (simp add: partition_eval)
  moreover have "partition_by_vector_perf 16 (\<lambda>q. NaN) (2 ^ 64 - 1) [0] = Some (Inr [0, 2 ^ 64 - 1])"
    by (simp add: partition_by_vector_perf_def)
  ultimately show ?thesis
    using partition_by_vector_perf_table [OF h1 h2 h3 h4 h6 h7] by simp
qed

text \<open>
  C1 as stated, for every \<open>n\<close>, every \<open>k \<ge> 1\<close> and every weight, does not hold. With
  two queues of weight zero the total is zero and the quotient \<open>0 / 0\<close> does not
  convert to \<open>size_t\<close>. With \<open>n = 2 ^ 64 - 1\<close> and the weights 1, 1, 0 the length is
  rounded to \<open>2 ^ 64\<close> when it becomes a \<open>double\<close>, and the second boundary, \<open>2 ^ 64\<close>,
  does not convert. With a weight of \<open>2 ^ 1023\<close> the product \<open>n * cumsum[1]\<close>
  overflows to infinity, and with a negative weight the first boundary is negative.
  With \<open>2 ^ 32\<close> queues the loop counter wraps around before it reaches the number of
  queues. In none of these cases is a table returned.
\<close>

theorem partition_by_vector_perf_counterexample:
  "partition_by_vector_perf 16 (\<lambda>q. Finite 0) 10 [0, 1] = Some (Inl OutOfRange)
   \<and> partition_by_vector_perf 16 (\<lambda>q. if q = 2 then Finite 0 else Finite 1) (2 ^ 64 - 1) [0, 1, 2]
       = Some (Inl OutOfRange)
   \<and> partition_by_vector_perf 16 (\<lambda>q. if q = 0 then Finite (2 ^ 1023) else Finite 0) 4 [0, 1]
       = Some (Inl OutOfRange)
   \<and> partition_by_vector_perf 16 (\<lambda>q. if q = 0 then Finite (- 1) else Finite 2) 10 [0, 1]
       = Some (Inl OutOfRange)
   \<and> \<not> returns_table (partition_by_vector_perf 16 (\<lambda>q. Finite 1) 10 (replicate (2 ^ 32) 0))"
proof -
  have "partition_by_vector_perf 16 (\<lambda>q. Finite 0) 10 [0, 1] = Some (Inl OutOfRange)"
    by (simp add: partition_eval)
  moreover have "partition_by_vector_perf 16 (\<lambda>q. if q = 2 then Finite 0 else Finite 1) (2 ^ 64 - 1) [0, 1, 2]
      = Some (Inl OutOfRange)"
    using round_double_size_max by (simp add: partition_eval round_double_powers)
  moreover have "partition_by_vector_perf 16 (\<lambda>q. if q = 0 then Finite (2 ^ 1023) else Finite 0) 4 [0, 1]
      = Some (Inl OutOfRange)"
    using round_double_huge by (simp add: partition_eval round_double_powers)
  moreover have "partition_by_vector_perf 16 (\<lambda>q. if q = 0 then Finite (- 1) else Finite 2) 10 [0, 1]
      = Some (Inl OutOfRange)"
    by (simp add: partition_eval round_double_minus)
  moreover have "\<not> returns_table (partition_by_vector_perf 16 (\<lambda>q. Finite 1) 10 (replicate (2 ^ 32) 0))"
    by (rule partition_never_returns) simp
  ultimately show ?thesis by (simp only: simp_thms)
qed

section \<open>Properties of host transfers\<close>

lemma shard_meets_iff:
  "shard_meets offset sz v d \<longleftrightarrow> max offset (part v ! d) < min (offset + sz) (part v ! (d + 1))"
  by (auto simp: shard_meets_def Int_atLeastLessThan)

lemma shard_meets_event [simp]:
  "shard_meets offset sz (v\<lparr>event := e\<rparr>) = shard_meets offset sz v"
  by (simp add: shard_meets_def fun_eq_iff)

lemma expected_event [simp]:
  "expected_write offset sz (v\<lparr>event := e\<rparr>) = expected_write offset sz v"
  "expected_read offset sz (v\<lparr>event := e\<rparr>) = expected_read offset sz v"
  by (simp_all add: expected_write_def expected_read_def fun_eq_iff)

lemma map_filter_append:
  "List.map_filter f (xs @ ys) = List.map_filter f xs @ List.map_filter f ys"
  by (simp add: List.map_filter_def)

lemma write_shards_skip:
  "\<not> shard_meets offset sz v d \<Longrightarrow>
   write_shards offset sz host s v (d # ds) = write_shards offset sz host s v ds"
  unfolding shard_meets_iff by (simp add: Let_def not_less del: min_less_iff_conj max_less_iff_conj)

lemma write_shards_meet:
  "shard_meets offset sz v d \<Longrightarrow>
   write_shards offset sz host s v (d # ds) =
     (case enqueueWriteBuffer s (queue v ! d) (buf v ! d)
              (max offset (part v ! d) - part v ! d)
              (min (offset + sz) (part v ! (d + 1)) - max offset (part v ! d))
              (max offset (part v ! d) - offset) host of
        Inl e \<Rightarrow> Inl e
      | Inr (s', ev) \<Rightarrow> write_shards offset sz host s' (v\<lparr>event := (event v)[d := ev]\<rparr>) ds)"
  unfolding shard_meets_iff
  by (simp add: Let_def not_le [symmetric] del: min_less_iff_conj max_less_iff_conj)

lemma write_shards_frame:
  "write_shards offset sz host s v ds = Inr (s', v') \<Longrightarrow>
   vtype v' = vtype v \<and> queue v' = queue v \<and> part v' = part v \<and> buf v' = buf v
   \<and> length (event v') = length (event v)
   \<and> (\<forall>d. d \<notin> set ds \<longrightarrow> event v' ! d = event v ! d)"
proof (induction ds arbitrary: s v)
  case Nil
  then show ?case by simp
next
  case (Cons d ds)
  show ?case
  proof (cases "shard_meets offset sz v d")
    case False
    with Cons.prems have "write_shards offset sz host s v ds = Inr (s', v')"
      by (simp add: write_shards_skip del: write_shards.simps)
    from Cons.IH [OF this] show ?thesis by simp
  next
    case True
    with Cons.prems obtain s1 ev where
      rec: "write_shards offset sz host s1 (v\<lparr>event := (event v)[d := ev]\<rparr>) ds = Inr (s', v')"
      by (auto simp add: write_shards_meet simp del: write_shards.simps split: sum.splits prod.splits)
    from Cons.IH [OF rec] show ?thesis by auto
  qed
qed

lemma enqueueWriteBuffer_issued:
  "enqueueWriteBuffer s q b off cnt hoff host = Inr (s', ev) \<Longrightarrow>
   issued s' = issued s @ [WriteBuffer q b off cnt hoff ev]"
  by (auto simp: enqueueWriteBuffer_def split: option.splits if_splits)

lemma write_shards_trace:
  "write_shards offset sz host s v ds = Inr (s', v') \<Longrightarrow> distinct ds \<Longrightarrow>
   \<forall>d \<in> set ds. d < length (event v) \<Longrightarrow>
   \<exists>new. issued s' = issued s @ new
     \<and> List.map_filter transfer_of new
         = map (expected_write offset sz v) (filter (shard_meets offset sz v) ds)
     \<and> List.map_filter event_of new
         = map (\<lambda>d. event v' ! d) (filter (shard_meets offset sz v) ds)
     \<and> List.map_filter waited new = []"
proof (induction ds arbitrary: s v)
  case Nil
  then show ?case by (simp add: List.map_filter_simps)
next
  case (Cons d ds)
  show ?case
  proof (cases "shard_meets offset sz v d")
    case False
    with Cons.prems have "write_shards offset sz host s v ds = Inr (s', v')"
      by (simp add: write_shards_skip del: write_shards.simps)
    from Cons.IH [OF this] Cons.prems False show ?thesis by simp
  next
    case True
    let ?v1 = "\<lambda>ev. v\<lparr>event := (event v)[d := ev]\<rparr>"
    from True Cons.prems obtain s1 ev where
      enq: "enqueueWriteBuffer s (queue v ! d) (buf v ! d)
              (max offset (part v ! d) - part v ! d)
              (min (offset + sz) (part v ! (d + 1)) - max offset (part v ! d))
              (max offset (part v ! d) - offset) host = Inr (s1, ev)"
      and rec: "write_shards offset sz host s1 (?v1 ev) ds = Inr (s', v')"
      by (auto simp add: write_shards_meet simp del: write_shards.simps split: sum.splits prod.splits)
    from Cons.prems have d: "distinct ds" "d \<notin> set ds" "d < length (event v)"
      "\<forall>d \<in> set ds. d < length (event (?v1 ev))" by simp_all
    from Cons.IH [OF rec d(1) d(4)] obtain new where
      new: "issued s' = issued s1 @ new"
        "List.map_filter transfer_of new
           = map (expected_write offset sz v) (filter (shard_meets offset sz v) ds)"
        "List.map_filter event_of new
           = map (\<lambda>d. event v' ! d) (filter (shard_meets offset sz v) ds)"
        "List.map_filter waited new = []"
      by auto
    from write_shards_frame [OF rec] d(2,3) have ev: "event v' ! d = ev" by simp
    let ?w = "WriteBuffer (queue v ! d) (buf v ! d)
              (max offset (part v ! d) - part v ! d)
              (min (offset + sz) (part v ! (d + 1)) - max offset (part v ! d))
              (max offset (part v ! d) - offset) ev"
    from enqueueWriteBuffer_issued [OF enq] new(1)
    have "issued s' = issued s @ (?w # new)" by simp
    moreover have "List.map_filter transfer_of (?w # new)
         = map (expected_write offset sz v) (filter (shard_meets offset sz v) (d # ds))"
      using True new(2) by (simp add: List.map_filter_simps expected_write_def)
    moreover have "List.map_filter event_of (?w # new)
         = map (\<lambda>d. event v' ! d) (filter (shard_meets offset sz v) (d # ds))"
      using True new(3) ev by (simp add: List.map_filter_simps)
    moreover have "List.map_filter waited (?w # new) = []"
      using new(4) by (simp add: List.map_filter_simps)
    ultimately show ?thesis by blast
  qed
qed

lemma wait_shards_issued:
  "issued (wait_shards offset sz s v ds)
     = issued s @ map (\<lambda>d. WaitEvent (event v ! d)) (filter (shard_meets offset sz v) ds)"
  by (induction ds arbitrary: s) (simp_all add: shard_meets_iff Let_def)

lemma wait_shards_mem [simp]:
  "mem (wait_shards offset sz s v ds) = mem s"
  by (induction ds arbitrary: s) (simp_all add: Let_def)

lemma map_filter_waits:
  "List.map_filter waited (map (\<lambda>d. WaitEvent (f d)) ds) = map f ds"
  "List.map_filter transfer_of (map (\<lambda>d. WaitEvent (f d)) ds) = []"
  "List.map_filter event_of (map (\<lambda>d. WaitEvent (f d)) ds) = []"
  by (induction ds) (simp_all add: List.map_filter_simps)


lemma read_shards_skip:
  "\<not> shard_meets offset sz v d \<Longrightarrow>
   read_shards offset sz host s v (d # ds) = read_shards offset sz host s v ds"
  unfolding shard_meets_iff by (simp add: Let_def not_less del: min_less_iff_conj max_less_iff_conj)

lemma read_shards_meet:
  "shard_meets offset sz v d \<Longrightarrow>
   read_shards offset sz host s v (d # ds) =
     (case enqueueReadBuffer s (queue v ! d) (buf v ! d)
              (max offset (part v ! d) - part v ! d)
              (min (offset + sz) (part v ! (d + 1)) - max offset (part v ! d))
              (max offset (part v ! d) - offset) host of
        Inl e \<Rightarrow> Inl e
      | Inr (s', ev, host') \<Rightarrow>
          read_shards offset sz host' s' (v\<lparr>event := (event v)[d := ev]\<rparr>) ds)"
  unfolding shard_meets_iff
  by (simp add: Let_def not_le [symmetric] del: min_less_iff_conj max_less_iff_conj)

lemma read_shards_frame:
  "read_shards offset sz host s v ds = Inr (s', v', host') \<Longrightarrow>
   vtype v' = vtype v \<and> queue v' = queue v \<and> part v' = part v \<and> buf v' = buf v
   \<and> length (event v') = length (event v)
   \<and> (\<forall>d. d \<notin> set ds \<longrightarrow> event v' ! d = event v ! d)"
proof (induction ds arbitrary: s v host)
  case Nil
  then show ?case by simp
next
  case (Cons d ds)
  show ?case
  proof (cases "shard_meets offset sz v d")
    case False
    with Cons.prems have "read_shards offset sz host s v ds = Inr (s', v', host')"
      by (simp add: read_shards_skip del: read_shards.simps)
    from Cons.IH [OF this] show ?thesis by simp
  next
    case True
    with Cons.prems obtain s1 ev h1 where
      rec: "read_shards offset sz h1 s1 (v\<lparr>event := (event v)[d := ev]\<rparr>) ds = Inr (s', v', host')"
      by (auto simp add: read_shards_meet simp del: read_shards.simps split: sum.splits prod.splits)
    from Cons.IH [OF rec] show ?thesis by auto
  qed
qed

lemma enqueueReadBuffer_issued:
  "enqueueReadBuffer s q b off cnt hoff host = Inr (s', ev, host') \<Longrightarrow>
   issued s' = issued s @ [ReadBuffer q b off cnt hoff ev]"
  by (auto simp: enqueueReadBuffer_def split: option.splits if_splits)

lemma read_shards_trace:
  "read_shards offset sz host s v ds = Inr (s', v', host') \<Longrightarrow> distinct ds \<Longrightarrow>
   \<forall>d \<in> set ds. d < length (event v) \<Longrightarrow>
   \<exists>new. issued s' = issued s @ new
     \<and> List.map_filter transfer_of new
         = map (expected_read offset sz v) (filter (shard_meets offset sz v) ds)
     \<and> List.map_filter event_of new
         = map (\<lambda>d. event v' ! d) (filter (shard_meets offset sz v) ds)
     \<and> List.map_filter waited new = []"
proof (induction ds arbitrary: s v host)
  case Nil
  then show ?case by (simp add: List.map_filter_simps)
next
  case (Cons d ds)
  show ?case
  proof (cases "shard_meets offset sz v d")
    case False
    with Cons.prems have "read_shards offset sz host s v ds = Inr (s', v', host')"
      by (simp add: read_shards_skip del: read_shards.simps)
    from Cons.IH [OF this] Cons.prems False show ?thesis by simp
  next
    case True
    let ?v1 = "\<lambda>ev. v\<lparr>event := (event v)[d := ev]\<rparr>"
    from True Cons.prems obtain s1 ev h1 where
      enq: "enqueueReadBuffer s (queue v ! d) (buf v ! d)
              (max offset (part v ! d) - part v ! d)
              (min (offset + sz) (part v ! (d + 1)) - max offset (part v ! d))
              (max offset (part v ! d) - offset) host = Inr (s1, ev, h1)"
      and rec: "read_shards offset sz h1 s1 (?v1 ev) ds = Inr (s', v', host')"
      by (auto simp add: read_shards_meet simp del: read_shards.simps split: sum.splits prod.splits)
    from Cons.prems have d: "distinct ds" "d \<notin> set ds" "d < length (event v)"
      "\<forall>d \<in> set ds. d < length (event (?v1 ev))" by simp_all
    from Cons.IH [OF rec d(1) d(4)] obtain new where
      new: "issued s' = issued s1 @ new"
        "List.map_filter transfer_of new
           = map (expected_read offset sz v) (filter (shard_meets offset sz v) ds)"
        "List.map_filter event_of new
           = map (\<lambda>d. event v' ! d) (filter (shard_meets offset sz v) ds)"
        "List.map_filter waited new = []"
      by auto
    from read_shards_frame [OF rec] d(2,3) have ev: "event v' ! d = ev" by simp
    let ?w = "ReadBuffer (queue v ! d) (buf v ! d)
              (max offset (part v ! d) - part v ! d)
              (min (offset + sz) (part v ! (d + 1)) - max offset (part v ! d))
              (max offset (part v ! d) - offset) ev"
    from enqueueReadBuffer_issued [OF enq] new(1)
    have "issued s' = issued s @ (?w # new)" by simp
    moreover have "List.map_filter transfer_of (?w # new)
         = map (expected_read offset sz v) (filter (shard_meets offset sz v) (d # ds))"
      using True new(2) by (simp add: List.map_filter_simps expected_read_def)
    moreover have "List.map_filter event_of (?w # new)
         = map (\<lambda>d. event v' ! d) (filter (shard_meets offset sz v) (d # ds))"
      using True new(3) ev by (simp add: List.map_filter_simps)
    moreover have "List.map_filter waited (?w # new) = []"
      using new(4) by (simp add: List.map_filter_simps)
    ultimately show ?thesis by blast
  qed
qed

lemma table_le_last:
  "length (part v) = nparts v + 1 \<Longrightarrow> sorted (part v) \<Longrightarrow> d < nparts v \<Longrightarrow>
   part v ! (d + 1) \<le> part v ! nparts v"
  by (intro sorted_nth_mono) simp_all

lemma shard_meets_whole:
  assumes "length (part v) = nparts v + 1" "sorted (part v)" "part v ! nparts v = n" "d < nparts v"
  shows "shard_meets 0 n v d \<longleftrightarrow> part v ! d < part v ! (d + 1)"
  using table_le_last [OF assms(1,2,4)] assms(3) by (auto simp: shard_meets_iff)

lemma enqueueWriteBuffer_whole:
  "mem s b = Some xs \<Longrightarrow> length xs = cnt \<Longrightarrow> hoff + cnt \<le> length host \<Longrightarrow>
   enqueueWriteBuffer s q b 0 cnt hoff host
     = Inr (s\<lparr>mem := (mem s)(b \<mapsto> take cnt (drop hoff host)),
              issued := issued s @ [WriteBuffer q b 0 cnt hoff (next_event s)],
              next_event := Suc (next_event s)\<rparr>, next_event s)"
  by (simp add: enqueueWriteBuffer_def)

lemma enqueueReadBuffer_whole:
  "mem s b = Some xs \<Longrightarrow> length xs = cnt \<Longrightarrow> hoff + cnt \<le> length host \<Longrightarrow>
   enqueueReadBuffer s q b 0 cnt hoff host
     = Inr (s\<lparr>issued := issued s @ [ReadBuffer q b 0 cnt hoff (next_event s)],
              next_event := Suc (next_event s)\<rparr>, next_event s,
            take hoff host @ xs @ drop (hoff + cnt) host)"
  by (simp add: enqueueReadBuffer_def)

lemma buffers_allocated_write:
  assumes "buffers_allocated s v" "d < nparts v" "part v ! d < part v ! (d + 1)"
    and "length ys = part v ! (d + 1) - part v ! d"
  shows "buffers_allocated (s\<lparr>mem := (mem s)(buf v ! d \<mapsto> ys), issued := i, next_event := e\<rparr>)
           (v\<lparr>event := ev\<rparr>)"
  using assms unfolding buffers_allocated_def nparts_def
  by (auto simp: fun_upd_def)

lemma write_shards_mem:
  "length (part v) = nparts v + 1 \<Longrightarrow> sorted (part v) \<Longrightarrow> part v ! nparts v = length host \<Longrightarrow>
   set ds \<subseteq> {0..<nparts v} \<Longrightarrow> buffers_allocated s v \<Longrightarrow>
   \<exists>s' v'. write_shards 0 (length host) host s v ds = Inr (s', v')
      \<and> buffers_allocated s' v'
      \<and> (\<forall>d < nparts v. part v ! d < part v ! (d + 1) \<longrightarrow>
           mem s' (buf v ! d)
             = (if d \<in> set ds
                then Some (take (part v ! (d + 1) - part v ! d) (drop (part v ! d) host))
                else mem s (buf v ! d)))"
proof (induction ds arbitrary: s v)
  case Nil
  then show ?case by simp
next
  case (Cons d ds)
  note len = Cons.prems(1) and srt = Cons.prems(2) and lst = Cons.prems(3)
    and alloc = Cons.prems(5)
  from Cons.prems(4) have dk: "d < nparts v" and sub: "set ds \<subseteq> {0..<nparts v}" by simp_all
  show ?case
  proof (cases "part v ! d < part v ! (d + 1)")
    case False
    then have "\<not> shard_meets 0 (length host) v d"
      using shard_meets_whole [OF len srt lst dk] by simp
    then have eq: "write_shards 0 (length host) host s v (d # ds)
        = write_shards 0 (length host) host s v ds"
      by (rule write_shards_skip)
    from Cons.IH [OF len srt lst sub alloc] obtain s' v' where
      r: "write_shards 0 (length host) host s v ds = Inr (s', v')"
        "buffers_allocated s' v'"
        "\<forall>d < nparts v. part v ! d < part v ! (d + 1) \<longrightarrow>
           mem s' (buf v ! d)
             = (if d \<in> set ds
                then Some (take (part v ! (d + 1) - part v ! d) (drop (part v ! d) host))
                else mem s (buf v ! d))"
      by blast
    have "\<forall>d' < nparts v. part v ! d' < part v ! (d' + 1) \<longrightarrow>
           mem s' (buf v ! d')
             = (if d' \<in> set (d # ds)
                then Some (take (part v ! (d' + 1) - part v ! d') (drop (part v ! d') host))
                else mem s (buf v ! d'))"
      using r(3) False by auto
    with eq r(1,2) show ?thesis by auto
  next
    case True
    define cnt where "cnt = part v ! (d + 1) - part v ! d"
    define ys where "ys = take cnt (drop (part v ! d) host)"
    from True have meets: "shard_meets 0 (length host) v d"
      using shard_meets_whole [OF len srt lst dk] by simp
    from alloc dk True obtain xs where xs: "mem s (buf v ! d) = Some xs" "length xs = cnt"
      by (auto simp: buffers_allocated_def cnt_def)
    from table_le_last [OF len srt dk] lst True have fit: "part v ! d + cnt \<le> length host"
      by (simp add: cnt_def)
    then have lys: "length ys = cnt" by (simp add: ys_def)
    define s1 where "s1 = s\<lparr>mem := (mem s)(buf v ! d \<mapsto> ys),
              issued := issued s @ [WriteBuffer (queue v ! d) (buf v ! d) 0 cnt (part v ! d) (next_event s)],
              next_event := Suc (next_event s)\<rparr>"
    define v1 where "v1 = v\<lparr>event := (event v)[d := next_event s]\<rparr>"
    have args: "max 0 (part v ! d) - part v ! d = 0"
      "min (0 + length host) (part v ! (d + 1)) - max 0 (part v ! d) = cnt"
      "max 0 (part v ! d) - 0 = part v ! d"
      using table_le_last [OF len srt dk] lst by (simp_all add: cnt_def)
    have eq: "write_shards 0 (length host) host s v (d # ds)
        = write_shards 0 (length host) host s1 v1 ds"
      unfolding write_shards_meet [OF meets] args
      by (simp add: enqueueWriteBuffer_whole [OF xs fit] s1_def v1_def ys_def)
    have alloc1: "buffers_allocated s1 v1"
      unfolding s1_def v1_def using alloc dk True lys
      by (intro buffers_allocated_write) (simp_all add: cnt_def)
    have v1: "part v1 = part v" "nparts v1 = nparts v" "buf v1 = buf v"
      by (simp_all add: v1_def nparts_def)
    from Cons.IH [of v1 s1] len srt lst sub alloc1 v1 obtain s' v' where
      r: "write_shards 0 (length host) host s1 v1 ds = Inr (s', v')"
        "buffers_allocated s' v'"
        "\<forall>d < nparts v. part v ! d < part v ! (d + 1) \<longrightarrow>
           mem s' (buf v ! d)
             = (if d \<in> set ds
                then Some (take (part v ! (d + 1) - part v ! d) (drop (part v ! d) host))
                else mem s1 (buf v ! d))"
      by auto
    have "mem s' (buf v ! d')
             = (if d' \<in> set (d # ds)
                then Some (take (part v ! (d' + 1) - part v ! d') (drop (part v ! d') host))
                else mem s (buf v ! d'))"
      if d': "d' < nparts v" "part v ! d' < part v ! (d' + 1)" for d'
    proof (cases "d' = d")
      case True
      with r(3) d' show ?thesis by (simp add: s1_def ys_def cnt_def)
    next
      case False
      with alloc dk d' \<open>part v ! d < part v ! (d + 1)\<close> have "buf v ! d' \<noteq> buf v ! d"
        by (auto simp: buffers_allocated_def)
      with r(3) d' False show ?thesis by (simp add: s1_def)
    qed
    with eq r(1,2) show ?thesis by auto
  qed
qed

lemma nth_append3:
  "length xs = a \<Longrightarrow> length ys = cnt \<Longrightarrow>
   (xs @ ys @ zs) ! i
     = (if i < a then xs ! i else if i < a + cnt then ys ! (i - a) else zs ! (i - a - cnt))"
  by (auto simp: nth_append)

lemma splice_nth:
  assumes "a + cnt \<le> length out" "length out = length host" "i < length host"
  shows "(take a out @ take cnt (drop a host) @ drop (a + cnt) out) ! i
     = (if a \<le> i \<and> i < a + cnt then host ! i else out ! i)"
proof -
  from assms have l1: "length (take a out) = a" and l2: "length (take cnt (drop a host)) = cnt"
    by simp_all
  consider "i < a" | "a \<le> i" "i < a + cnt" | "a + cnt \<le> i" by linarith
  then show ?thesis
  proof cases
    case 1
    then show ?thesis unfolding nth_append3 [OF l1 l2] by simp
  next
    case 2
    then have "i - a < cnt" "a + (i - a) = i" by simp_all
    with 2 assms show ?thesis unfolding nth_append3 [OF l1 l2] by simp
  next
    case 3
    with assms have "a + cnt + (i - a - cnt) = i" "a + cnt + (i - a - cnt) \<le> length out" by simp_all
    with 3 show ?thesis unfolding nth_append3 [OF l1 l2] by (simp del: add_diff_cancel_left')
  qed
qed

lemma splice_length:
  "a + cnt \<le> length out \<Longrightarrow> length out = length host \<Longrightarrow>
   length (take a out @ take cnt (drop a host) @ drop (a + cnt) out) = length host"
  by simp

lemma read_shards_host:
  "length (part v) = nparts v + 1 \<Longrightarrow> sorted (part v) \<Longrightarrow> part v ! nparts v = length host \<Longrightarrow>
   length out = length host \<Longrightarrow> set ds \<subseteq> {0..<nparts v} \<Longrightarrow>
   \<forall>d < nparts v. part v ! d < part v ! (d + 1) \<longrightarrow>
      mem s (buf v ! d) = Some (take (part v ! (d + 1) - part v ! d) (drop (part v ! d) host)) \<Longrightarrow>
   \<exists>s' v' out'. read_shards 0 (length host) out s v ds = Inr (s', v', out')
      \<and> length out' = length host \<and> mem s' = mem s
      \<and> (\<forall>i < length host. out' ! i
            = (if \<exists>d \<in> set ds. part v ! d \<le> i \<and> i < part v ! (d + 1) then host ! i else out ! i))"
proof (induction ds arbitrary: s v out)
  case Nil
  then show ?case by simp
next
  case (Cons d ds)
  note len = Cons.prems(1) and srt = Cons.prems(2) and lst = Cons.prems(3)
    and lout = Cons.prems(4) and filled = Cons.prems(6)
  from Cons.prems(5) have dk: "d < nparts v" and sub: "set ds \<subseteq> {0..<nparts v}" by simp_all
  show ?case
  proof (cases "part v ! d < part v ! (d + 1)")
    case False
    then have "\<not> shard_meets 0 (length host) v d"
      using shard_meets_whole [OF len srt lst dk] by simp
    then have eq: "read_shards 0 (length host) out s v (d # ds)
        = read_shards 0 (length host) out s v ds"
      by (rule read_shards_skip)
    from Cons.IH [OF len srt lst lout sub filled] obtain s' v' out' where
      r: "read_shards 0 (length host) out s v ds = Inr (s', v', out')"
        "length out' = length host" "mem s' = mem s"
        "\<forall>i < length host. out' ! i
            = (if \<exists>d \<in> set ds. part v ! d \<le> i \<and> i < part v ! (d + 1) then host ! i else out ! i)"
      by blast
    have "\<forall>i < length host. out' ! i
            = (if \<exists>d' \<in> set (d # ds). part v ! d' \<le> i \<and> i < part v ! (d' + 1) then host ! i else out ! i)"
      using r(4) False by auto
    with eq r(1,2,3) show ?thesis by auto
  next
    case True
    define a where "a = part v ! d"
    define cnt where "cnt = part v ! (d + 1) - part v ! d"
    define xs where "xs = take cnt (drop a host)"
    from True have meets: "shard_meets 0 (length host) v d"
      using shard_meets_whole [OF len srt lst dk] by simp
    from table_le_last [OF len srt dk] lst True have fit: "a + cnt \<le> length host"
      by (simp add: cnt_def a_def)
    from fit lout have fit': "a + cnt \<le> length out" by simp
    from filled dk True have xs: "mem s (buf v ! d) = Some xs"
      by (simp add: xs_def cnt_def a_def)
    from fit have lxs: "length xs = cnt" by (simp add: xs_def)
    define out1 where "out1 = take a out @ xs @ drop (a + cnt) out"
    define s1 where "s1 = s\<lparr>issued := issued s @ [ReadBuffer (queue v ! d) (buf v ! d) 0 cnt a (next_event s)],
              next_event := Suc (next_event s)\<rparr>"
    define v1 where "v1 = v\<lparr>event := (event v)[d := next_event s]\<rparr>"
    have args: "max 0 (part v ! d) - part v ! d = 0"
      "min (0 + length host) (part v ! (d + 1)) - max 0 (part v ! d) = cnt"
      "max 0 (part v ! d) - 0 = a"
      using table_le_last [OF len srt dk] lst by (simp_all add: cnt_def a_def)
    have eq: "read_shards 0 (length host) out s v (d # ds)
        = read_shards 0 (length host) out1 s1 v1 ds"
      unfolding read_shards_meet [OF meets] args
      by (simp add: enqueueReadBuffer_whole [OF xs lxs fit'] s1_def v1_def out1_def)
    have lout1: "length out1 = length host"
      unfolding out1_def xs_def using fit' lout by (rule splice_length)
    have nth1: "out1 ! i = (if a \<le> i \<and> i < a + cnt then host ! i else out ! i)"
      if "i < length host" for i
      unfolding out1_def xs_def using fit' lout that by (rule splice_nth)
    have v1: "part v1 = part v" "nparts v1 = nparts v" "buf v1 = buf v"
      by (simp_all add: v1_def nparts_def)
    have mem1: "mem s1 = mem s" by (simp add: s1_def)
    from Cons.IH [of v1 out1 s1] len srt lst lout1 sub filled v1 mem1 obtain s' v' out' where
      r: "read_shards 0 (length host) out1 s1 v1 ds = Inr (s', v', out')"
        "length out' = length host" "mem s' = mem s"
        "\<forall>i < length host. out' ! i
            = (if \<exists>d \<in> set ds. part v ! d \<le> i \<and> i < part v ! (d + 1) then host ! i else out1 ! i)"
      by auto
    have ab: "a + cnt = part v ! (d + 1)" using True by (simp add: a_def cnt_def)
    have "out' ! i
            = (if \<exists>d' \<in> set (d # ds). part v ! d' \<le> i \<and> i < part v ! (d' + 1) then host ! i else out ! i)"
      if i: "i < length host" for i
      using r(4) i nth1 [OF i] ab by (auto simp: a_def)
    with eq r(1,2,3) show ?thesis by auto
  qed
qed

lemma every_index_owned:
  assumes "length (part v) = nparts v + 1" "part v ! 0 = 0" "i < part v ! nparts v"
  shows "\<exists>d \<in> set [0..<nparts v]. part v ! d \<le> i \<and> i < part v ! (d + 1)"
proof -
  from assms have "nparts v \<noteq> 0" by (cases "nparts v") auto
  then have pos: "0 < nparts v" by simp
  from find_part_in_range [OF assms(1,3) pos] assms(2) show ?thesis by auto
qed

lemma wait_shards_trace:
  "\<exists>ws. issued (wait_shards offset sz s v ds) = issued s @ ws
     \<and> List.map_filter waited ws = map (\<lambda>d. event v ! d) (filter (shard_meets offset sz v) ds)
     \<and> List.map_filter transfer_of ws = [] \<and> List.map_filter event_of ws = []"
  by (rule exI [of _ "map (\<lambda>d. WaitEvent (event v ! d)) (filter (shard_meets offset sz v) ds)"])
     (simp add: wait_shards_issued map_filter_waits)

lemma write_data_trace:
  assumes "write_data s v offset sz host blocking = Inr (s', v')" and "0 < sz"
    and "length (event v) = length (queue v)"
  shows "\<exists>w. issued s' = issued s @ w
     \<and> List.map_filter transfer_of w
         = map (expected_write offset sz v) (filter (shard_meets offset sz v) [0..<nparts v])
     \<and> List.map_filter waited w = (if blocking then List.map_filter event_of w else [])"
proof -
  from assms(1,2) obtain s1 where
    ws: "write_shards offset sz host s v [0..<length (queue v)] = Inr (s1, v')"
    and s': "s' = (if blocking then wait_shards offset sz s1 v' [0..<length (queue v')] else s1)"
    by (auto simp: write_data_def split: sum.splits if_splits)
  from write_shards_frame [OF ws] have fr: "queue v' = queue v" "part v' = part v"
    by simp_all
  then have meets: "shard_meets offset sz v' = shard_meets offset sz v"
    by (simp add: shard_meets_def fun_eq_iff)
  from write_shards_trace [OF ws] assms(3) obtain new where
    new: "issued s1 = issued s @ new"
      "List.map_filter transfer_of new
         = map (expected_write offset sz v) (filter (shard_meets offset sz v) [0..<length (queue v)])"
      "List.map_filter event_of new
         = map (\<lambda>d. event v' ! d) (filter (shard_meets offset sz v) [0..<length (queue v)])"
      "List.map_filter waited new = []"
    by auto
  show ?thesis
  proof (cases blocking)
    case False
    with s' new show ?thesis by (auto simp: nparts_def)
  next
    case True
    from wait_shards_trace [of offset sz s1 v' "[0..<length (queue v')]"] obtain ws where
      w: "issued (wait_shards offset sz s1 v' [0..<length (queue v')]) = issued s1 @ ws"
        "List.map_filter waited ws
           = map (\<lambda>d. event v' ! d) (filter (shard_meets offset sz v') [0..<length (queue v')])"
        "List.map_filter transfer_of ws = []" "List.map_filter event_of ws = []"
      by blast
    from True s' w(1) new(1) have "issued s' = issued s @ (new @ ws)" by simp
    moreover have "List.map_filter transfer_of (new @ ws)
         = map (expected_write offset sz v) (filter (shard_meets offset sz v) [0..<nparts v])"
      by (simp add: map_filter_append new(2) w(3) nparts_def)
    moreover have "List.map_filter waited (new @ ws) = List.map_filter event_of (new @ ws)"
      by (simp add: map_filter_append new(3,4) w(2,4) fr meets)
    ultimately show ?thesis using True by auto
  qed
qed

lemma read_data_trace:
  assumes "read_data s v offset sz host blocking = Inr (s', v', host')" and "0 < sz"
    and "length (event v) = length (queue v)"
  shows "\<exists>r. issued s' = issued s @ r
     \<and> List.map_filter transfer_of r
         = map (expected_read offset sz v) (filter (shard_meets offset sz v) [0..<nparts v])
     \<and> List.map_filter waited r = (if blocking then List.map_filter event_of r else [])"
proof -
  from assms(1,2) obtain s1 where
    rs: "read_shards offset sz host s v [0..<length (queue v)] = Inr (s1, v', host')"
    and s': "s' = (if blocking then wait_shards offset sz s1 v' [0..<length (queue v')] else s1)"
    by (auto simp: read_data_def split: sum.splits if_splits)
  from read_shards_frame [OF rs] have fr: "queue v' = queue v" "part v' = part v"
    by simp_all
  then have meets: "shard_meets offset sz v' = shard_meets offset sz v"
    by (simp add: shard_meets_def fun_eq_iff)
  from read_shards_trace [OF rs] assms(3) obtain new where
    new: "issued s1 = issued s @ new"
      "List.map_filter transfer_of new
         = map (expected_read offset sz v) (filter (shard_meets offset sz v) [0..<length (queue v)])"
      "List.map_filter event_of new
         = map (\<lambda>d. event v' ! d) (filter (shard_meets offset sz v) [0..<length (queue v)])"
      "List.map_filter waited new = []"
    by auto
  show ?thesis
  proof (cases blocking)
    case False
    with s' new show ?thesis by (auto simp: nparts_def)
  next
    case True
    from wait_shards_trace [of offset sz s1 v' "[0..<length (queue v')]"] obtain ws where
      w: "issued (wait_shards offset sz s1 v' [0..<length (queue v')]) = issued s1 @ ws"
        "List.map_filter waited ws
           = map (\<lambda>d. event v' ! d) (filter (shard_meets offset sz v') [0..<length (queue v')])"
        "List.map_filter transfer_of ws = []" "List.map_filter event_of ws = []"
      by blast
    from True s' w(1) new(1) have "issued s' = issued s @ (new @ ws)" by simp
    moreover have "List.map_filter transfer_of (new @ ws)
         = map (expected_read offset sz v) (filter (shard_meets offset sz v) [0..<nparts v])"
      by (simp add: map_filter_append new(2) w(3) nparts_def)
    moreover have "List.map_filter waited (new @ ws) = List.map_filter event_of (new @ ws)"
      by (simp add: map_filter_append new(3,4) w(2,4) fr meets)
    ultimately show ?thesis using True by auto
  qed
qed

lemma write_data_whole:
  assumes len: "length (part v) = nparts v + 1" and srt: "sorted (part v)"
    and lst: "part v ! nparts v = length host" and alloc: "buffers_allocated s v"
    and pos: "0 < length host"
  shows "\<exists>s' v'. write_data s v 0 (length host) host blocking = Inr (s', v')
     \<and> vtype v' = vtype v \<and> queue v' = queue v \<and> part v' = part v \<and> buf v' = buf v
     \<and> length (event v') = length (event v)
     \<and> (\<forall>d < nparts v. part v ! d < part v ! (d + 1) \<longrightarrow>
          mem s' (buf v ! d) = Some (take (part v ! (d + 1) - part v ! d) (drop (part v ! d) host)))"
proof -
  have sub: "set [0..<length (queue v)] \<subseteq> {0..<nparts v}" by (simp add: nparts_def)
  from write_shards_mem [OF len srt lst sub alloc] obtain s1 v1 where
    r: "write_shards 0 (length host) host s v [0..<length (queue v)] = Inr (s1, v1)"
      "\<forall>d < nparts v. part v ! d < part v ! (d + 1) \<longrightarrow>
           mem s1 (buf v ! d)
             = (if d \<in> set [0..<length (queue v)]
                then Some (take (part v ! (d + 1) - part v ! d) (drop (part v ! d) host))
                else mem s (buf v ! d))"
    by blast
  let ?s' = "if blocking then wait_shards 0 (length host) s1 v1 [0..<length (queue v1)] else s1"
  from r(1) pos have "write_data s v 0 (length host) host blocking = Inr (?s', v1)"
    by (simp add: write_data_def)
  moreover have "mem ?s' = mem s1" by simp
  moreover note write_shards_frame [OF r(1)]
  ultimately show ?thesis using r(2) by (auto simp: nparts_def)
qed

lemma read_data_whole:
  assumes len: "length (part v) = nparts v + 1" and srt: "sorted (part v)"
    and p0: "part v ! 0 = 0"
    and lst: "part v ! nparts v = length host" and lout: "length out = length host"
    and pos: "0 < length host"
    and filled: "\<forall>d < nparts v. part v ! d < part v ! (d + 1) \<longrightarrow>
          mem s (buf v ! d) = Some (take (part v ! (d + 1) - part v ! d) (drop (part v ! d) host))"
  shows "\<exists>s' v'. read_data s v 0 (length host) out blocking = Inr (s', v', host)"
proof -
  have sub: "set [0..<length (queue v)] \<subseteq> {0..<nparts v}" by (simp add: nparts_def)
  from read_shards_host [OF len srt lst lout sub filled] obtain s1 v1 out' where
    r: "read_shards 0 (length host) out s v [0..<length (queue v)] = Inr (s1, v1, out')"
      "length out' = length host"
      "\<forall>i < length host. out' ! i
            = (if \<exists>d \<in> set [0..<length (queue v)]. part v ! d \<le> i \<and> i < part v ! (d + 1)
               then host ! i else out ! i)"
    by blast
  have "out' = host"
  proof (rule nth_equalityI)
    show "length out' = length host" by (rule r(2))
  next
    fix i assume "i < length out'"
    with r(2) have i: "i < length host" by simp
    with lst have "i < part v ! nparts v" by simp
    from every_index_owned [OF len p0 this]
    have "\<exists>d \<in> set [0..<length (queue v)]. part v ! d \<le> i \<and> i < part v ! (d + 1)"
      by (simp add: nparts_def)
    with r(3) i show "out' ! i = host ! i" by simp
  qed
  with r(1) pos show ?thesis by (simp add: read_data_def)
qed

text \<open>
  C2. For a device vector of length \<open>n\<close> over any number of shards and host arrays of
  length \<open>n\<close>, \<open>write_data(0, n, host, blocking)\<close> followed by
  \<open>read_data(0, n, out, CL_TRUE)\<close> both succeed and leave \<open>out\<close> equal to \<open>host\<close>. Each
  call issues exactly the expected transfer for every shard that the range meets, in
  shard order, and nothing for the other shards; a blocking call waits for exactly the
  events of the transfers it issued, a non-blocking call for none.
\<close>

theorem write_then_read_round_trip:
  assumes inv: "vector_inv v" and alloc: "buffers_allocated s v"
    and lh: "length host = vsize v" and lo: "length out = vsize v"
  shows "\<exists>s1 v1 s2 v2 w r.
      write_data s v 0 (vsize v) host blocking = Inr (s1, v1)
    \<and> read_data s1 v1 0 (vsize v) out True = Inr (s2, v2, host)
    \<and> issued s1 = issued s @ w \<and> issued s2 = issued s1 @ r
    \<and> List.map_filter transfer_of w
        = map (expected_write 0 (vsize v) v) (filter (shard_meets 0 (vsize v) v) [0..<nparts v])
    \<and> List.map_filter transfer_of r
        = map (expected_read 0 (vsize v) v) (filter (shard_meets 0 (vsize v) v) [0..<nparts v])
    \<and> List.map_filter waited w = (if blocking then List.map_filter event_of w else [])
    \<and> List.map_filter waited r = List.map_filter event_of r"
proof (cases "vsize v = 0")
  case True
  with lh lo have "host = []" "out = []" by simp_all
  moreover have "filter (shard_meets 0 0 v) [0..<nparts v] = []"
    by (simp add: shard_meets_def)
  ultimately show ?thesis using True
    by (simp add: write_data_def read_data_def List.map_filter_simps)
next
  case False
  then have ne: "part v \<noteq> []" by (auto simp: vsize_def)
  with inv have len: "length (part v) = nparts v + 1" and p0: "part v ! 0 = 0"
    and srt: "sorted (part v)" and le: "length (event v) = length (queue v)"
    by (auto simp: vector_inv_def nparts_def)
  from len ne lh have lst: "part v ! nparts v = length host"
    by (simp add: vsize_def last_conv_nth)
  from False lh have pos: "0 < length host" by simp
  from write_data_whole [OF len srt lst alloc pos, of blocking] obtain s1 v1 where
    w: "write_data s v 0 (length host) host blocking = Inr (s1, v1)"
      "queue v1 = queue v" "part v1 = part v" "buf v1 = buf v"
      "length (event v1) = length (event v)"
      "\<forall>d < nparts v. part v ! d < part v ! (d + 1) \<longrightarrow>
          mem s1 (buf v ! d) = Some (take (part v ! (d + 1) - part v ! d) (drop (part v ! d) host))"
    by blast
  have n1: "nparts v1 = nparts v" by (simp add: nparts_def w(2))
  have len1: "length (part v1) = nparts v1 + 1" and srt1: "sorted (part v1)"
    and p01: "part v1 ! 0 = 0" and lst1: "part v1 ! nparts v1 = length host"
    and le1: "length (event v1) = length (queue v1)"
    using len srt p0 lst le by (simp_all add: n1 w(2,3,5))
  have filled1: "\<forall>d < nparts v1. part v1 ! d < part v1 ! (d + 1) \<longrightarrow>
          mem s1 (buf v1 ! d)
            = Some (take (part v1 ! (d + 1) - part v1 ! d) (drop (part v1 ! d) host))"
    using w(6) by (simp add: n1 w(3,4))
  from lo lh have lout: "length out = length host" by simp
  from read_data_whole [OF len1 srt1 p01 lst1 lout pos filled1, of True] obtain s2 v2 where
    r: "read_data s1 v1 0 (length host) out True = Inr (s2, v2, host)"
    by blast
  from write_data_trace [OF w(1) pos le] obtain wl where
    wl: "issued s1 = issued s @ wl"
      "List.map_filter transfer_of wl
         = map (expected_write 0 (length host) v)
             (filter (shard_meets 0 (length host) v) [0..<nparts v])"
      "List.map_filter waited wl = (if blocking then List.map_filter event_of wl else [])"
    by blast
  from read_data_trace [OF r pos le1] obtain rl where
    rl: "issued s2 = issued s1 @ rl"
      "List.map_filter transfer_of rl
         = map (expected_read 0 (length host) v1)
             (filter (shard_meets 0 (length host) v1) [0..<nparts v1])"
      "List.map_filter waited rl = (if True then List.map_filter event_of rl else [])"
    by blast
  have same: "shard_meets 0 (length host) v1 = shard_meets 0 (length host) v"
    "expected_read 0 (length host) v1 = expected_read 0 (length host) v"
    by (simp_all add: shard_meets_def expected_read_def fun_eq_iff w(2,3,4))
  from w(1) r wl rl show ?thesis
    unfolding lh [symmetric] same n1 by (intro exI [of _ s1] exI [of _ v1] exI [of _ s2] exI [of _ v2]
        exI [of _ wl] exI [of _ rl]) simp
qed

theorem write_then_read_round_trip_witness:
  "vector_inv VI \<and> buffers_allocated SI VI
   \<and> (\<exists>s1 v1 s2 v2. write_data SI VI 0 5 [10, 20, 30, 40, 50] False = Inr (s1, v1)
        \<and> read_data s1 v1 0 5 [0, 0, 0, 0, 0] True = Inr (s2, v2, [10, 20, 30, 40, 50])
        \<and> mem s1 1 = Some [10, 20] \<and> mem s1 2 = Some [30, 40, 50]
        \<and> issued s1 = [WriteBuffer 0 1 0 2 0 1, WriteBuffer 2 2 0 3 2 2]
        \<and> issued s2 = issued s1
             @ [ReadBuffer 0 1 0 2 0 3, ReadBuffer 2 2 0 3 2 4, WaitEvent 3, WaitEvent 4])"
proof -
  have inv: "vector_inv VI" by (simp add: vector_inv_def)
  have al: "buffers_allocated SI VI"
    by (simp add: buffers_allocated_def nparts_def less_Suc_eq eval_nat_numeral all_conj_distrib)
  have sz: "vsize VI = 5" by (simp add: vsize_def)
  have w: "write_data SI VI 0 5 [10, 20, 30, 40, 50] False
      = Inr (\<lparr>mem = [1 \<mapsto> [10, 20], 2 \<mapsto> [30, 40, 50::int]],
              issued = [WriteBuffer 0 1 0 2 0 1, WriteBuffer 2 2 0 3 2 2], next_event = 3\<rparr>,
             VI\<lparr>event := [1, 0, 2]\<rparr>)"
    by (simp add: write_data_def enqueueWriteBuffer_def upt_rec fun_upd_def fun_eq_iff)
  have r: "read_data \<lparr>mem = [1 \<mapsto> [10, 20], 2 \<mapsto> [30, 40, 50::int]],
              issued = [WriteBuffer 0 1 0 2 0 1, WriteBuffer 2 2 0 3 2 2], next_event = 3\<rparr>
             (VI\<lparr>event := [1, 0, 2]\<rparr>) 0 5 [0, 0, 0, 0, 0] True
      = Inr (\<lparr>mem = [1 \<mapsto> [10, 20], 2 \<mapsto> [30, 40, 50::int]],
              issued = [WriteBuffer 0 1 0 2 0 1, WriteBuffer 2 2 0 3 2 2,
                        ReadBuffer 0 1 0 2 0 3, ReadBuffer 2 2 0 3 2 4, WaitEvent 3, WaitEvent 4],
              next_event = 5\<rparr>,
             VI\<lparr>event := [3, 0, 4]\<rparr>, [10, 20, 30, 40, 50])"
    by (simp add: read_data_def enqueueReadBuffer_def upt_rec)
  from write_then_read_round_trip [OF inv al, of "[10, 20, 30, 40, 50]" "[0, 0, 0, 0, 0]" False]
  show ?thesis using inv al w r by (simp add: sz)
qed

section \<open>Properties of copy assignment\<close>

lemma enqueueCopyBuffer_ok:
  assumes "fits s src cnt" "fits s dst cnt" "src \<noteq> dst"
  shows "\<exists>s'. enqueueCopyBuffer s q src dst 0 0 cnt = Inr s'
     \<and> issued s' = issued s @ [CopyBuffer q src dst 0 0 cnt]
     \<and> next_event s' = next_event s
     \<and> (\<forall>b. b \<noteq> dst \<longrightarrow> mem s' b = mem s b)
     \<and> (\<forall>b n. fits s b n \<longrightarrow> fits s' b n)"
  using assms by (auto simp: enqueueCopyBuffer_def fits_def)

lemma enqueueCopyBuffer_effect:
  "enqueueCopyBuffer s q src dst so dof cnt = Inr s' \<Longrightarrow>
   issued s' = issued s @ [CopyBuffer q src dst so dof cnt]
   \<and> next_event s' = next_event s
   \<and> (\<forall>b. b \<noteq> dst \<longrightarrow> mem s' b = mem s b)"
  by (auto simp: enqueueCopyBuffer_def split: option.splits if_splits)

lemma copy_shards_effect:
  "copy_shards s this x ds = Inr s' \<Longrightarrow>
   issued s' = issued s @ map (expected_copy this x)
                 (filter (\<lambda>d. part this ! (d + 1) - part this ! d \<noteq> 0) ds)
   \<and> next_event s' = next_event s
   \<and> (\<forall>b. b \<notin> (\<lambda>d. buf this ! d) ` set ds \<longrightarrow> mem s' b = mem s b)"
proof (induction ds arbitrary: s)
  case Nil
  then show ?case by simp
next
  case (Cons d ds)
  show ?case
  proof (cases "part this ! (d + 1) - part this ! d \<noteq> 0")
    case False
    with Cons.prems have "copy_shards s this x ds = Inr s'" by simp
    from Cons.IH [OF this] False show ?thesis by simp
  next
    case True
    with Cons.prems obtain s1 where
      enq: "enqueueCopyBuffer s (queue this ! d) (buf x ! d) (buf this ! d) 0 0
              (part this ! (d + 1) - part this ! d) = Inr s1"
      and rec: "copy_shards s1 this x ds = Inr s'"
      by (auto simp: Let_def split: sum.splits)
    from enqueueCopyBuffer_effect [OF enq] Cons.IH [OF rec] True
    show ?thesis by (simp add: expected_copy_def)
  qed
qed

lemma copy_shards_ok:
  "\<forall>d \<in> set ds. part this ! (d + 1) - part this ! d \<noteq> 0 \<longrightarrow>
      fits s (buf x ! d) (part this ! (d + 1) - part this ! d)
      \<and> fits s (buf this ! d) (part this ! (d + 1) - part this ! d)
      \<and> buf x ! d \<noteq> buf this ! d \<Longrightarrow>
   \<exists>s'. copy_shards s this x ds = Inr s'"
proof (induction ds arbitrary: s)
  case Nil
  then show ?case by simp
next
  case (Cons d ds)
  show ?case
  proof (cases "part this ! (d + 1) - part this ! d \<noteq> 0")
    case False
    with Cons.IH [of s] Cons.prems show ?thesis by simp
  next
    case True
    with Cons.prems have "fits s (buf x ! d) (part this ! (d + 1) - part this ! d)"
      "fits s (buf this ! d) (part this ! (d + 1) - part this ! d)"
      "buf x ! d \<noteq> buf this ! d" by simp_all
    from enqueueCopyBuffer_ok [OF this, of "queue this ! d"] obtain s1 where
      s1: "enqueueCopyBuffer s (queue this ! d) (buf x ! d) (buf this ! d) 0 0
              (part this ! (d + 1) - part this ! d) = Inr s1"
        "\<forall>b n. fits s b n \<longrightarrow> fits s1 b n"
      by blast
    from Cons.prems s1(2) have "\<forall>d \<in> set ds. part this ! (d + 1) - part this ! d \<noteq> 0 \<longrightarrow>
      fits s1 (buf x ! d) (part this ! (d + 1) - part this ! d)
      \<and> fits s1 (buf this ! d) (part this ! (d + 1) - part this ! d)
      \<and> buf x ! d \<noteq> buf this ! d" by simp
    from Cons.IH [OF this] obtain s' where "copy_shards s1 this x ds = Inr s'" by blast
    with True s1(1) show ?thesis by simp
  qed
qed

lemma buffers_allocated_fits:
  "buffers_allocated s v \<Longrightarrow> d < nparts v \<Longrightarrow> part v ! (d + 1) - part v ! d \<noteq> 0 \<Longrightarrow>
   fits s (buf v ! d) (part v ! (d + 1) - part v ! d)"
  by (auto simp: buffers_allocated_def fits_def)

text \<open>
  C9. Assigning a vector to itself changes nothing: no copy is enqueued and every
  vector object is as before. Assigning one vector to a different one of the same
  shape, both satisfying the class invariant and each with its own allocated buffers,
  enqueues exactly one buffer-to-buffer copy
  for every shard of non-zero length, in shard order; no vector object changes, no event
  is created, and every buffer that is not one of the destination's keeps its contents.
\<close>

theorem copy_assign_frame:
  "(objs this = Some tv \<longrightarrow> copy_assign s objs this this = Inr (s, objs))
   \<and> (x \<noteq> this \<and> objs this = Some tv \<and> objs x = Some xv
        \<and> vector_inv tv \<and> vector_inv xv \<and> part xv = part tv
        \<and> buffers_allocated s tv \<and> buffers_allocated s xv \<and> nparts xv = nparts tv
        \<and> (\<forall>d < nparts tv. part tv ! (d + 1) - part tv ! d \<noteq> 0
               \<longrightarrow> buf xv ! d \<noteq> buf tv ! d)
      \<longrightarrow> (\<exists>s'. copy_assign s objs this x = Inr (s', objs)
            \<and> issued s' = issued s @ map (expected_copy tv xv)
                  (filter (\<lambda>d. part tv ! (d + 1) - part tv ! d \<noteq> 0) [0..<nparts tv])
            \<and> next_event s' = next_event s
            \<and> (\<forall>b. b \<notin> set (buf tv) \<longrightarrow> mem s' b = mem s b)))"
proof (intro conjI impI)
  assume "objs this = Some tv"
  then show "copy_assign s objs this this = Inr (s, objs)"
    by (simp add: copy_assign_def)
next
  assume h: "x \<noteq> this \<and> objs this = Some tv \<and> objs x = Some xv
        \<and> vector_inv tv \<and> vector_inv xv \<and> part xv = part tv
        \<and> buffers_allocated s tv \<and> buffers_allocated s xv \<and> nparts xv = nparts tv
        \<and> (\<forall>d < nparts tv. part tv ! (d + 1) - part tv ! d \<noteq> 0
               \<longrightarrow> buf xv ! d \<noteq> buf tv ! d)"
  have "\<forall>d \<in> set [0..<length (queue tv)]. part tv ! (d + 1) - part tv ! d \<noteq> 0 \<longrightarrow>
      fits s (buf xv ! d) (part tv ! (d + 1) - part tv ! d)
      \<and> fits s (buf tv ! d) (part tv ! (d + 1) - part tv ! d)
      \<and> buf xv ! d \<noteq> buf tv ! d"
  proof (intro ballI impI)
    fix d assume d: "d \<in> set [0..<length (queue tv)]" "part tv ! (d + 1) - part tv ! d \<noteq> 0"
    then have dk: "d < nparts tv" by (simp add: nparts_def)
    with h d(2) buffers_allocated_fits [of s tv d] buffers_allocated_fits [of s xv d]
    show "fits s (buf xv ! d) (part tv ! (d + 1) - part tv ! d)
      \<and> fits s (buf tv ! d) (part tv ! (d + 1) - part tv ! d)
      \<and> buf xv ! d \<noteq> buf tv ! d" by simp
  qed
  from copy_shards_ok [OF this] obtain s' where
    s': "copy_shards s tv xv [0..<length (queue tv)] = Inr s'" by blast
  have "set (buf tv) = (\<lambda>d. buf tv ! d) ` set [0..<length (queue tv)]"
  proof -
    from h have "length (buf tv) = length (queue tv)" by (simp add: vector_inv_def)
    then show ?thesis unfolding set_upt by (auto simp: in_set_conv_nth)
  qed
  with copy_shards_effect [OF s'] h s'
  show "\<exists>s'. copy_assign s objs this x = Inr (s', objs)
            \<and> issued s' = issued s @ map (expected_copy tv xv)
                  (filter (\<lambda>d. part tv ! (d + 1) - part tv ! d \<noteq> 0) [0..<nparts tv])
            \<and> next_event s' = next_event s
            \<and> (\<forall>b. b \<notin> set (buf tv) \<longrightarrow> mem s' b = mem s b)"
    by (simp add: copy_assign_def nparts_def)
qed

theorem copy_assign_frame_witness:
  "copy_assign SJ [10 \<mapsto> VJ, 20 \<mapsto> VI] 10 10 = Inr (SJ, [10 \<mapsto> VJ, 20 \<mapsto> VI])
   \<and> (\<exists>s'. copy_assign SJ [10 \<mapsto> VJ, 20 \<mapsto> VI] 10 20 = Inr (s', [10 \<mapsto> VJ, 20 \<mapsto> VI])
     \<and> issued s' = [CopyBuffer 0 1 3 0 0 2, CopyBuffer 2 2 4 0 0 3]
     \<and> mem s' 1 = Some [1, 2] \<and> mem s' 2 = Some [3, 4, 5])"
proof -
  let ?s = SJ and ?t = VJ and ?x = VI
  let ?objs = "[10::nat \<mapsto> ?t, 20 \<mapsto> ?x]"
  have a1: "buffers_allocated ?s ?t" and a2: "buffers_allocated ?s ?x"
    by (simp_all add: buffers_allocated_def nparts_def less_Suc_eq eval_nat_numeral all_conj_distrib)
  have d: "\<forall>d < nparts ?t. part ?t ! (d + 1) - part ?t ! d \<noteq> 0 \<longrightarrow> buf ?x ! d \<noteq> buf ?t ! d"
    by (simp add: nparts_def less_Suc_eq eval_nat_numeral all_conj_distrib)
  have f: "filter (\<lambda>d. part ?t ! (d + 1) - part ?t ! d \<noteq> 0) [0..<nparts ?t] = [0, 2]"
    by (simp add: nparts_def upt_rec)
  have hyp: "(20::nat) \<noteq> 10 \<and> ?objs 10 = Some ?t \<and> ?objs 20 = Some ?x
        \<and> vector_inv ?t \<and> vector_inv ?x \<and> part ?x = part ?t
        \<and> buffers_allocated ?s ?t \<and> buffers_allocated ?s ?x \<and> nparts ?x = nparts ?t
        \<and> (\<forall>d < nparts ?t. part ?t ! (d + 1) - part ?t ! d \<noteq> 0
               \<longrightarrow> buf ?x ! d \<noteq> buf ?t ! d)"
    using a1 a2 d by (simp add: nparts_def vector_inv_def)
  have self: "?objs 10 = Some ?t" by simp
  from copy_assign_frame [of ?objs 10 ?t ?s 20 ?x, THEN conjunct2, rule_format, OF hyp]
  obtain s' where s': "copy_assign ?s ?objs 10 20 = Inr (s', ?objs)"
      "issued s' = issued ?s @ map (expected_copy ?t ?x)
         (filter (\<lambda>d. part ?t ! (d + 1) - part ?t ! d \<noteq> 0) [0..<nparts ?t])"
      "\<forall>b. b \<notin> set (buf ?t) \<longrightarrow> mem s' b = mem ?s b"
    by blast
  from s'(2) have i: "issued s' = [CopyBuffer 0 1 3 0 0 2, CopyBuffer 2 2 4 0 0 3]"
    unfolding f by (simp add: expected_copy_def)
  from s'(3) have m: "mem s' 1 = Some [1, 2]" "mem s' 2 = Some [3, 4, 5]" by simp_all
  from copy_assign_frame [of ?objs 10 ?t ?s 20 ?x, THEN conjunct1, rule_format, OF self]
  have "copy_assign ?s ?objs 10 10 = Inr (?s, ?objs)" .
  with s'(1) i m show ?thesis by blast
qed

section \<open>Properties of the compiled-kernel cache\<close>

lemma compile_for_compiled:
  "compiled st (T, expr_type e, queue_context api q) \<Longrightarrow> compile_for api T e st q = (st, None)"
  by (simp add: compile_for_def)

lemma compile_for_frame:
  "compile_for api T e st q = (st', r) \<Longrightarrow>
   launches st' = launches st
   \<and> (\<forall>k. k \<noteq> (T, expr_type e, queue_context api q) \<longrightarrow>
         compiled st' k = compiled st k \<and> kernel st' k = kernel st k \<and> wgsize st' k = wgsize st k)
   \<and> (\<forall>k. compiled st k \<longrightarrow> compiled st' k)
   \<and> (\<exists>new. builds st' = builds st @ new)"
  by (auto simp: compile_for_def Let_def split: if_splits list.splits sum.splits)

lemma compile_for_success:
  "compile_for api T e st q = (st', None) \<Longrightarrow>
   \<not> compiled st (T, expr_type e, queue_context api q) \<Longrightarrow>
   compiled st' (T, expr_type e, queue_context api q)
   \<and> stored api st' (T, expr_type e, queue_context api q)
   \<and> (\<exists>src. builds st' = builds st @ [((T, expr_type e, queue_context api q), src)])"
  by (auto simp: compile_for_def Let_def stored_def split: if_splits list.splits sum.splits)

lemma compile_for_newly_compiled:
  "compile_for api T e st q = (st', r) \<Longrightarrow> compiled st' k \<Longrightarrow> \<not> compiled st k \<Longrightarrow>
   \<exists>c dev0 devs name p kn.
      k = (T, expr_type e, c) \<and> context_devices api c = dev0 # devs
      \<and> kernel_name e = Inr name
      \<and> build_sources api c (kernel_source api T e name (device_is_cpu api dev0)) = Inr p
      \<and> create_kernel api p name = Inr kn \<and> kernel st' k = Some kn"
  by (auto simp: compile_for_def Let_def split: if_splits list.splits sum.splits)

lemma compile_for_build_fails:
  assumes "\<not> compiled st (T, expr_type e, queue_context api q)"
    and "context_devices api (queue_context api q) = dev0 # devs"
    and "kernel_name e = Inr name"
    and "build_sources api (queue_context api q)
           (kernel_source api T e name (device_is_cpu api dev0)) = Inl err
         \<or> (\<exists>p. build_sources api (queue_context api q)
                 (kernel_source api T e name (device_is_cpu api dev0)) = Inr p
               \<and> create_kernel api p name = Inl err)"
  shows "compile_for api T e st q
     = (st\<lparr>builds := builds st @ [((T, expr_type e, queue_context api q),
                                     kernel_source api T e name (device_is_cpu api dev0))]\<rparr>,
        Some err)"
  using assms by (auto simp: compile_for_def Let_def)

lemma compile_for_attempts:
  assumes "\<not> compiled st (T, expr_type e, queue_context api q)"
    and "context_devices api (queue_context api q) = dev0 # devs"
    and "kernel_name e = Inr name"
  shows "\<exists>new. builds (fst (compile_for api T e st q))
     = builds st @ [((T, expr_type e, queue_context api q),
                      kernel_source api T e name (device_is_cpu api dev0))]"
  using assms by (auto simp: compile_for_def Let_def split: sum.splits)


lemma launch_shards_frame:
  "launch_shards api e st v ds = (st', r) \<Longrightarrow>
   compiled st' = compiled st \<and> kernel st' = kernel st \<and> wgsize st' = wgsize st
   \<and> builds st' = builds st"
proof (induction ds arbitrary: st)
  case Nil
  then show ?case by simp
next
  case (Cons d ds)
  from Cons.prems consider
      (stop) "st' = st"
    | (skip) "launch_shards api e st v ds = (st', r)"
    | (go) l where "launch_shards api e (st\<lparr>launches := launches st @ [l]\<rparr>) v ds = (st', r)"
    by (auto simp: Let_def split: if_splits option.splits sum.splits)
  then show ?case
  proof cases
    case stop
    then show ?thesis by simp
  next
    case skip
    from Cons.IH [OF this] show ?thesis .
  next
    case go
    from Cons.IH [OF this] show ?thesis by simp
  qed
qed

lemma compile_loop_reuse:
  "\<forall>q \<in> set qs. compiled st (T, expr_type e, queue_context api q) \<Longrightarrow>
   compile_loop api T e st qs = (st, None)"
  by (induction qs) (simp_all add: compile_for_compiled)

lemma compile_loop_keeps:
  "compile_loop api T e st qs = (st', r) \<Longrightarrow>
   launches st' = launches st
   \<and> (\<forall>k. compiled st k \<longrightarrow>
         compiled st' k \<and> kernel st' k = kernel st k \<and> wgsize st' k = wgsize st k)
   \<and> (\<exists>new. builds st' = builds st @ new)"
proof (induction qs arbitrary: st)
  case Nil
  then show ?case by simp
next
  case (Cons q qs)
  obtain st1 r1 where c: "compile_for api T e st q = (st1, r1)" by (cases "compile_for api T e st q")
  have keep: "compiled st1 k \<and> kernel st1 k = kernel st k \<and> wgsize st1 k = wgsize st k"
    if "compiled st k" for k
  proof (cases "k = (T, expr_type e, queue_context api q)")
    case True
    with that c compile_for_compiled [of st T e api q] show ?thesis by simp
  next
    case False
    with that compile_for_frame [OF c] show ?thesis by (cases k) auto
  qed
  note fr = compile_for_frame [OF c]
  show ?case
  proof (cases r1)
    case (Some err)
    with c Cons.prems have "st' = st1" by simp
    with keep fr show ?thesis by simp
  next
    case None
    with c Cons.prems have "compile_loop api T e st1 qs = (st', r)" by simp
    from Cons.IH [OF this] keep fr show ?thesis by auto
  qed
qed

lemma build_count_append:
  "builds st' = builds st @ [(k', src)] \<Longrightarrow>
   build_count st' k = build_count st k + (if k = k' then 1 else 0)"
  by (auto simp: build_count_def)

lemma compile_loop_count:
  "compile_loop api T e st qs = (st', None) \<Longrightarrow>
   build_count st' k
     = build_count st k
       + (if \<not> compiled st k \<and> k \<in> (\<lambda>q. (T, expr_type e, queue_context api q)) ` set qs
          then 1 else 0)
   \<and> compiled st' k
       = (compiled st k \<or> k \<in> (\<lambda>q. (T, expr_type e, queue_context api q)) ` set qs)
   \<and> (\<not> compiled st k \<and> k \<in> (\<lambda>q. (T, expr_type e, queue_context api q)) ` set qs
        \<longrightarrow> stored api st' k)"
proof (induction qs arbitrary: st)
  case Nil
  then show ?case by simp
next
  case (Cons q qs)
  let ?kq = "(T, expr_type e, queue_context api q)"
  let ?keys = "(\<lambda>q. (T, expr_type e, queue_context api q)) ` set qs"
  from Cons.prems obtain st1 where c: "compile_for api T e st q = (st1, None)"
    and l: "compile_loop api T e st1 qs = (st', None)"
    by (auto split: prod.splits option.splits)
  note IH = Cons.IH [OF l]
  note keeps = compile_loop_keeps [OF l]
  show ?case
  proof (cases "compiled st ?kq")
    case True
    with c compile_for_compiled [of st T e api q] have "st1 = st" by simp
    with IH True show ?thesis by auto
  next
    case False
    from compile_for_success [OF c False] obtain src where
      s1: "compiled st1 ?kq" "stored api st1 ?kq" "builds st1 = builds st @ [(?kq, src)]"
      by blast
    from keeps s1(1) have "kernel st' ?kq = kernel st1 ?kq" "wgsize st' ?kq = wgsize st1 ?kq"
      by blast+
    with s1(2) have s1': "stored api st' ?kq" by (simp add: stored_def)
    note fr = compile_for_frame [OF c]
    show ?thesis
    proof (cases "k = ?kq")
      case True
      with IH s1 s1' False build_count_append [OF s1(3), of k] show ?thesis by auto
    next
      case False
      with fr have "compiled st1 k = compiled st k"
        by (cases k; auto)+
      with IH False build_count_append [OF s1(3), of k] show ?thesis by auto
    qed
  qed
qed

lemma compile_loop_newly_compiled:
  "compile_loop api T e st qs = (st', r) \<Longrightarrow> compiled st' k \<Longrightarrow> \<not> compiled st k \<Longrightarrow>
   \<exists>c dev0 devs name p kn.
      k = (T, expr_type e, c) \<and> context_devices api c = dev0 # devs
      \<and> kernel_name e = Inr name
      \<and> build_sources api c (kernel_source api T e name (device_is_cpu api dev0)) = Inr p
      \<and> create_kernel api p name = Inr kn \<and> kernel st' k = Some kn"
proof (induction qs arbitrary: st)
  case Nil
  then show ?case by simp
next
  case (Cons q qs)
  obtain st1 r1 where c: "compile_for api T e st q = (st1, r1)" by (cases "compile_for api T e st q")
  show ?case
  proof (cases "compiled st1 k")
    case True
    from compile_for_newly_compiled [OF c True Cons.prems(3)] obtain c' dev0 devs name p kn where
      n: "k = (T, expr_type e, c')" "context_devices api c' = dev0 # devs"
        "kernel_name e = Inr name"
        "build_sources api c' (kernel_source api T e name (device_is_cpu api dev0)) = Inr p"
        "create_kernel api p name = Inr kn" "kernel st1 k = Some kn"
      by blast
    have "kernel st' k = kernel st1 k"
    proof (cases r1)
      case (Some err)
      with c Cons.prems(1) show ?thesis by simp
    next
      case None
      with c Cons.prems(1) have "compile_loop api T e st1 qs = (st', r)" by simp
      from compile_loop_keeps [OF this] True show ?thesis by blast
    qed
    with n show ?thesis by auto
  next
    case False
    with c Cons.prems(1,2) have "compile_loop api T e st1 qs = (st', r)"
      by (cases r1) auto
    from Cons.IH [OF this Cons.prems(2) False] show ?thesis .
  qed
qed

lemma assign_expr_split:
  obtains (fail) st1 err where "compile_loop api (vtype v) e st (queue v) = (st1, Some err)"
      "assign_expr api st v e = (st1, Some err)"
  | (ok) st1 where "compile_loop api (vtype v) e st (queue v) = (st1, None)"
      "assign_expr api st v e = launch_shards api e st1 v [0..<length (queue v)]"
proof (cases "compile_loop api (vtype v) e st (queue v)")
  case (Pair st1 r)
  then show ?thesis
    by (cases r) (auto simp: assign_expr_def intro: fail ok)
qed

lemma assign_expr_cache:
  obtains st1 r1 where "compile_loop api (vtype v) e st (queue v) = (st1, r1)"
    "compiled (fst (assign_expr api st v e)) = compiled st1"
    "kernel (fst (assign_expr api st v e)) = kernel st1"
    "wgsize (fst (assign_expr api st v e)) = wgsize st1"
    "builds (fst (assign_expr api st v e)) = builds st1"
    "r1 = None \<or> assign_expr api st v e = (st1, r1)"
proof (cases rule: assign_expr_split [of api v e st])
  case (fail st1 err)
  then show ?thesis by (intro that [of st1 "Some err"]) simp_all
next
  case (ok st1)
  obtain st' r where l: "launch_shards api e st1 v [0..<length (queue v)] = (st', r)"
    by (cases "launch_shards api e st1 v [0..<length (queue v)]")
  from launch_shards_frame [OF l] ok l show ?thesis
    by (intro that [of st1 None]) simp_all
qed

lemma expected_launch_cong:
  "kernel st' = kernel st \<Longrightarrow> wgsize st' = wgsize st \<Longrightarrow>
   expected_launch api st' v e = expected_launch api st v e"
  by (rule ext) (simp add: expected_launch_def Let_def split: option.splits sum.splits)

lemma launch_shards_launches:
  "launch_shards api e st v ds = (st', None) \<Longrightarrow>
   \<exists>new. launches st' = launches st @ new
     \<and> map Some new
        = map (expected_launch api st v e) (filter (\<lambda>d. part v ! (d + 1) - part v ! d \<noteq> 0) ds)"
proof (induction ds arbitrary: st)
  case Nil
  then show ?case by simp
next
  case (Cons d ds)
  show ?case
  proof (cases "part v ! (d + 1) - part v ! d \<noteq> 0")
    case False
    with Cons.prems have "launch_shards api e st v ds = (st', None)" by (simp add: Let_def)
    from Cons.IH [OF this] False show ?thesis by simp
  next
    case True
    from Cons.prems True obtain l where
      l: "expected_launch api st v e d = Some l"
      and rest: "launch_shards api e (st\<lparr>launches := launches st @ [l]\<rparr>) v ds = (st', None)"
      by (auto simp: Let_def expected_launch_def split: option.splits sum.splits)
    from Cons.IH [OF rest] obtain new where
      new: "launches st' = (launches st @ [l]) @ new"
        "map Some new = map (expected_launch api (st\<lparr>launches := launches st @ [l]\<rparr>) v e)
            (filter (\<lambda>d. part v ! (d + 1) - part v ! d \<noteq> 0) ds)"
      by auto
    have "expected_launch api (st\<lparr>launches := launches st @ [l]\<rparr>) v e = expected_launch api st v e"
      by (rule expected_launch_cong) simp_all
    with new l True have "launches st' = launches st @ (l # new)
      \<and> map Some (l # new)
        = map (expected_launch api st v e) (filter (\<lambda>d. part v ! (d + 1) - part v ! d \<noteq> 0) (d # ds))"
      by simp
    then show ?thesis by blast
  qed
qed

lemma assign_expr_launches:
  assumes "assign_expr api st v e = (st', None)"
  shows "\<exists>new. launches st' = launches st @ new
     \<and> map Some new = map (expected_launch api st' v e) (launched_shards v)"
proof (cases rule: assign_expr_split [of api v e st])
  case (fail st1 err)
  with assms show ?thesis by simp
next
  case (ok st1)
  with assms have l: "launch_shards api e st1 v [0..<length (queue v)] = (st', None)" by simp
  from launch_shards_launches [OF l] obtain new where
    new: "launches st' = launches st1 @ new"
      "map Some new = map (expected_launch api st1 v e) (launched_shards v)"
    by (auto simp: launched_shards_def)
  from launch_shards_frame [OF l] have "expected_launch api st' v e = expected_launch api st1 v e"
    by (intro expected_launch_cong) simp_all
  moreover from compile_loop_keeps [OF ok(1)] have "launches st1 = launches st" by simp
  ultimately show ?thesis using new by simp
qed

lemma expected_launch_same:
  assumes "kernel st' (vtype v, expr_type e, queue_context api (queue v ! d))
             = kernel st (vtype v, expr_type e, queue_context api (queue v ! d))"
    and "wgsize st' (vtype v, expr_type e, queue_context api (queue v ! d))
             = wgsize st (vtype v, expr_type e, queue_context api (queue v ! d))"
  shows "expected_launch api st' v e d = expected_launch api st v e d"
  using assms by (simp add: expected_launch_def Let_def split: option.splits sum.splits)

lemma assign_expr_keeps:
  assumes "compiled s k"
  shows "compiled (fst (assign_expr api s v e)) k
    \<and> kernel (fst (assign_expr api s v e)) k = kernel s k
    \<and> wgsize (fst (assign_expr api s v e)) k = wgsize s k"
proof -
  obtain s2 r2 where c2: "compile_loop api (vtype v) e s (queue v) = (s2, r2)"
    and eq: "compiled (fst (assign_expr api s v e)) = compiled s2"
      "kernel (fst (assign_expr api s v e)) = kernel s2"
      "wgsize (fst (assign_expr api s v e)) = wgsize s2"
    by (rule assign_expr_cache)
  from compile_loop_keeps [OF c2] assms
  have "compiled s2 k \<and> kernel s2 k = kernel s k \<and> wgsize s2 k = wgsize s k" by blast
  with eq show ?thesis by simp
qed

lemma later_keeps:
  "later api st st' \<Longrightarrow> compiled st k \<Longrightarrow>
   compiled st' k \<and> kernel st' k = kernel st k \<and> wgsize st' k = wgsize st k"
proof (induction rule: later.induct)
  case later_refl
  then show ?case by simp
next
  case (later_step st' v e)
  then have "compiled st' k" "kernel st' k = kernel st k" "wgsize st' k = wgsize st k"
    by simp_all
  with assign_expr_keeps [of st' k api v e] show ?case by simp
qed

text \<open>
  C4, as amended. The cache is keyed by the destination's element type, the expression
  type and the context. An assignment that returns without an error leaves every key of
  the destination's queues compiled; for a key that was not compiled before, it has
  called \<open>build_sources\<close> exactly once and stored the kernel and its work-group size, and
  for a key that was compiled it has not called it; on every shard of non-zero length
  it has enqueued the kernel found in the cache, with the cached work-group size.
  Compiled entries are never changed by an assignment. In every later state, after any
  number of assignments, an assignment of the same expression type to a destination of
  the same element type, on queues of the same contexts -- whichever destination vector
  it assigns to -- builds nothing and leaves the cache as it is, and when it returns
  without an error it has enqueued, on every shard of non-zero length, the kernel and
  the work-group size that the first assignment left in the cache.
\<close>

theorem compiled_once_per_key:
  assumes first: "assign_expr api st v1 (e1 :: 'c expr) = (st1, None)"
  shows "(\<forall>q \<in> set (queue v1).
            compiled st1 (vtype v1, expr_type e1, queue_context api q)
          \<and> (\<not> compiled st (vtype v1, expr_type e1, queue_context api q) \<longrightarrow>
               stored api st1 (vtype v1, expr_type e1, queue_context api q)
               \<and> build_count st1 (vtype v1, expr_type e1, queue_context api q)
                 = build_count st (vtype v1, expr_type e1, queue_context api q) + 1)
          \<and> (compiled st (vtype v1, expr_type e1, queue_context api q) \<longrightarrow>
               build_count st1 (vtype v1, expr_type e1, queue_context api q)
                 = build_count st (vtype v1, expr_type e1, queue_context api q)))
       \<and> (\<exists>new. launches st1 = launches st @ new
             \<and> map Some new = map (expected_launch api st1 v1 e1) (launched_shards v1))
       \<and> (\<forall>st' v2 (e2 :: 'c expr).
            later api st1 st' \<and> vtype v2 = vtype v1 \<and> expr_type e2 = expr_type e1
            \<and> queue_context api ` set (queue v2) \<subseteq> queue_context api ` set (queue v1)
            \<longrightarrow> builds (fst (assign_expr api st' v2 e2)) = builds st'
              \<and> compiled (fst (assign_expr api st' v2 e2)) = compiled st'
              \<and> kernel (fst (assign_expr api st' v2 e2)) = kernel st'
              \<and> wgsize (fst (assign_expr api st' v2 e2)) = wgsize st'
              \<and> (snd (assign_expr api st' v2 e2) = None \<longrightarrow>
                   (\<exists>new. launches (fst (assign_expr api st' v2 e2)) = launches st' @ new
                      \<and> map Some new = map (expected_launch api st1 v2 e2) (launched_shards v2))))
       \<and> (\<forall>api' (s :: 'c engine) v e k. compiled s k \<longrightarrow>
            compiled (fst (assign_expr api' s v e)) k
            \<and> kernel (fst (assign_expr api' s v e)) k = kernel s k
            \<and> wgsize (fst (assign_expr api' s v e)) k = wgsize s k)"
proof (intro conjI ballI allI impI)
  obtain s1 r1 where c: "compile_loop api (vtype v1) e1 st (queue v1) = (s1, r1)"
    and eqs: "compiled (fst (assign_expr api st v1 e1)) = compiled s1"
      "kernel (fst (assign_expr api st v1 e1)) = kernel s1"
      "wgsize (fst (assign_expr api st v1 e1)) = wgsize s1"
      "builds (fst (assign_expr api st v1 e1)) = builds s1"
    and r1: "r1 = None \<or> assign_expr api st v1 e1 = (s1, r1)"
    by (rule assign_expr_cache)
  from r1 first have r1: "r1 = None" by auto
  from eqs first have eqs': "compiled st1 = compiled s1" "kernel st1 = kernel s1"
    "wgsize st1 = wgsize s1" "builds st1 = builds s1" by simp_all
  then have same: "stored api st1 = stored api s1" "build_count st1 = build_count s1"
    by (simp_all add: stored_def build_count_def fun_eq_iff)
  note cnt = compile_loop_count [OF c [unfolded r1]]
  {
    fix q assume q: "q \<in> set (queue v1)"
    let ?k = "(vtype v1, expr_type e1, queue_context api q)"
    from q have mem: "?k \<in> (\<lambda>q. (vtype v1, expr_type e1, queue_context api q)) ` set (queue v1)"
      by blast
    from cnt [of ?k] mem show "compiled st1 ?k" by (simp add: eqs')
    {
      assume "\<not> compiled st ?k"
      with cnt [of ?k] mem show "stored api st1 ?k" by (simp add: same)
      from \<open>\<not> compiled st ?k\<close> cnt [of ?k] mem
      show "build_count st1 ?k = build_count st ?k + 1" by (simp add: same)
    }
    {
      assume "compiled st ?k"
      with cnt [of ?k] show "build_count st1 ?k = build_count st ?k" by (simp add: same)
    }
  }
  from first show "\<exists>new. launches st1 = launches st @ new
      \<and> map Some new = map (expected_launch api st1 v1 e1) (launched_shards v1)"
    by (rule assign_expr_launches)
  {
    fix st' :: "'c engine" and v2 :: vector and e2 :: "'c expr"
    assume h0: "later api st1 st' \<and> vtype v2 = vtype v1 \<and> expr_type e2 = expr_type e1
            \<and> queue_context api ` set (queue v2) \<subseteq> queue_context api ` set (queue v1)"
    then have "later api st1 st'" by simp
    from later_keeps [OF this] h0
    have h: "(\<forall>k. compiled st1 k \<longrightarrow>
                   compiled st' k \<and> kernel st' k = kernel st1 k \<and> wgsize st' k = wgsize st1 k)
            \<and> vtype v2 = vtype v1 \<and> expr_type e2 = expr_type e1
            \<and> queue_context api ` set (queue v2) \<subseteq> queue_context api ` set (queue v1)"
      by blast
    have c1: "compiled st1 (vtype v2, expr_type e2, queue_context api q)"
      if "q \<in> set (queue v2)" for q
    proof -
      from that h obtain q1 where q1: "q1 \<in> set (queue v1)" "queue_context api q = queue_context api q1"
        by (auto simp: image_def subset_eq)
      then have "(vtype v1, expr_type e1, queue_context api q)
          \<in> (\<lambda>q. (vtype v1, expr_type e1, queue_context api q)) ` set (queue v1)" by auto
      with cnt [of "(vtype v1, expr_type e1, queue_context api q)"]
      have "compiled st1 (vtype v1, expr_type e1, queue_context api q)" by (simp add: eqs')
      with h show ?thesis by simp
    qed
    have all: "\<forall>q \<in> set (queue v2). compiled st' (vtype v2, expr_type e2, queue_context api q)"
      using c1 h by blast
    obtain s2 r2 where c2: "compile_loop api (vtype v2) e2 st' (queue v2) = (s2, r2)"
      and eqs2: "compiled (fst (assign_expr api st' v2 e2)) = compiled s2"
        "kernel (fst (assign_expr api st' v2 e2)) = kernel s2"
        "wgsize (fst (assign_expr api st' v2 e2)) = wgsize s2"
        "builds (fst (assign_expr api st' v2 e2)) = builds s2"
      by (rule assign_expr_cache)
    from compile_loop_reuse [OF all] c2 have s2: "s2 = st'" by simp
    with eqs2 show "builds (fst (assign_expr api st' v2 e2)) = builds st'"
      "compiled (fst (assign_expr api st' v2 e2)) = compiled st'"
      "kernel (fst (assign_expr api st' v2 e2)) = kernel st'"
      "wgsize (fst (assign_expr api st' v2 e2)) = wgsize st'" by simp_all
    {
      assume ok: "snd (assign_expr api st' v2 e2) = None"
      let ?st2 = "fst (assign_expr api st' v2 e2)"
      from ok have "assign_expr api st' v2 e2 = (?st2, None)" by (metis prod.collapse)
      from assign_expr_launches [OF this] obtain new where
        new: "launches ?st2 = launches st' @ new"
          "map Some new = map (expected_launch api ?st2 v2 e2) (launched_shards v2)"
        by blast
      have "expected_launch api ?st2 v2 e2 d = expected_launch api st1 v2 e2 d"
        if "d \<in> set (launched_shards v2)" for d
      proof -
        from that have "queue v2 ! d \<in> set (queue v2)" by (simp add: launched_shards_def)
        from c1 [OF this] h eqs2 s2 show ?thesis by (intro expected_launch_same) simp_all
      qed
      then have "map (expected_launch api ?st2 v2 e2) (launched_shards v2)
          = map (expected_launch api st1 v2 e2) (launched_shards v2)" by simp
      with new show "\<exists>new. launches ?st2 = launches st' @ new
          \<and> map Some new = map (expected_launch api st1 v2 e2) (launched_shards v2)" by auto
    }
  }
  {
    fix api' and s :: "'c engine" and v :: vector and e :: "'c expr" and k
    assume k: "compiled s k"
    from assign_expr_keeps [OF k, of api' v e]
    show "compiled (fst (assign_expr api' s v e)) k"
      "kernel (fst (assign_expr api' s v e)) k = kernel s k"
      "wgsize (fst (assign_expr api' s v e)) k = wgsize s k" by simp_all
  }
qed

theorem compiled_once_per_key_witness:
  "snd (assign_expr example_api empty_engine VF EA) = None
   \<and> build_count (fst (assign_expr example_api empty_engine VF EA))
        (''float'', BinaryT (VecT ''float'') (CHR ''+'') (ScalT ''int''), 0) = 1
   \<and> kernel (fst (assign_expr example_api empty_engine VF EA))
        (''float'', BinaryT (VecT ''float'') (CHR ''+'') (ScalT ''int''), 0) = Some 1
   \<and> launches (fst (assign_expr example_api empty_engine VF EA))
      = [Launch 0 1 [ArgSize 3, ArgBuffer 1, ArgBuffer 1, ArgScalar 3] 64 64,
         Launch 1 1 [ArgSize 2, ArgBuffer 2, ArgBuffer 2, ArgScalar 3] 64 64]
   \<and> snd (assign_expr example_api (fst (assign_expr example_api empty_engine VF EA)) VG EB) = None
   \<and> builds (fst (assign_expr example_api (fst (assign_expr example_api empty_engine VF EA)) VG EB))
      = builds (fst (assign_expr example_api empty_engine VF EA))
   \<and> launches (fst (assign_expr example_api (fst (assign_expr example_api empty_engine VF EA)) VG EB))
      = launches (fst (assign_expr example_api empty_engine VF EA))
        @ [Launch 1 1 [ArgSize 4, ArgBuffer 3, ArgBuffer 3, ArgScalar 7] 64 64]
   \<and> builds (fst (assign_expr example_api
        (fst (assign_expr example_api (fst (assign_expr example_api empty_engine VF EA)) VG EB)) VF EA))
      = builds (fst (assign_expr example_api empty_engine VF EA))"
proof -
  let ?st1 = "fst (assign_expr example_api empty_engine VF EA)"
  let ?K = "(''float'', BinaryT (VecT ''float'') (CHR ''+'') (ScalT ''int''), 0::nat)"
  have st1: "assign_expr example_api empty_engine VF EA
      = (\<lparr>compiled = (\<lambda>k. k = ?K), kernel = (\<lambda>k. if k = ?K then Some 1 else None),
          wgsize = (\<lambda>k. if k = ?K then 64 else 0),
          builds = [(?K, kernel_source example_api ''float'' EA ''pvc'' True)],
          launches = [Launch 0 1 [ArgSize 3, ArgBuffer 1, ArgBuffer 1, ArgScalar 3] 64 64,
                      Launch 1 1 [ArgSize 2, ArgBuffer 2, ArgBuffer 2, ArgScalar 3] 64 64]\<rparr>, None)"
    by (simp add: assign_expr_def compile_for_def example_api_def empty_engine_def cat_names_def
        Let_def upt_rec alignup_def fun_eq_iff)
  then have ok: "snd (assign_expr example_api empty_engine VF EA) = None" by simp
  then have first: "assign_expr example_api empty_engine VF EA = (?st1, None)"
    by (metis prod.collapse)
  note main = compiled_once_per_key [OF first]
  have q: "(0::nat) \<in> set (queue VF)" by simp
  have nc: "\<not> compiled (empty_engine :: int engine) (vtype VF, expr_type EA, queue_context example_api 0)"
    by (simp add: empty_engine_def)
  from main [THEN conjunct1, rule_format, OF q, THEN conjunct2, THEN conjunct1, rule_format, OF nc]
  have cnt: "build_count ?st1 ?K = 1"
    by (simp add: build_count_def empty_engine_def example_api_def)
  have h: "later example_api ?st1 ?st1
            \<and> vtype VG = vtype VF \<and> expr_type EB = expr_type EA
            \<and> queue_context example_api ` set (queue VG) \<subseteq> queue_context example_api ` set (queue VF)"
    by (simp add: example_api_def later_refl)
  note later = main [THEN conjunct2, THEN conjunct2, THEN conjunct1, rule_format, OF h]
  from later have b: "builds (fst (assign_expr example_api ?st1 VG EB)) = builds ?st1" by simp
  have ok2: "snd (assign_expr example_api ?st1 VG EB) = None"
    unfolding st1 by (simp add: assign_expr_def compile_for_def example_api_def Let_def upt_rec)
  from later ok2 obtain new where
    new: "launches (fst (assign_expr example_api ?st1 VG EB)) = launches ?st1 @ new"
      "map Some new = map (expected_launch example_api ?st1 VG EB) (launched_shards VG)"
    by blast
  have "map (expected_launch example_api ?st1 VG EB) (launched_shards VG)
      = [Some (Launch 1 1 [ArgSize 4, ArgBuffer 3, ArgBuffer 3, ArgScalar 7] 64 64)]"
    unfolding st1 by (simp add: expected_launch_def launched_shards_def example_api_def alignup_def)
  with new(2) have new': "new = [Launch 1 1 [ArgSize 4, ArgBuffer 3, ArgBuffer 3, ArgScalar 7] 64 64]"
    by (cases new) auto
  let ?st2 = "fst (assign_expr example_api ?st1 VG EB)"
  have "later example_api ?st1 ?st2" by (rule later_step [OF later_refl])
  then have h3: "later example_api ?st1 ?st2
            \<and> vtype VF = vtype VF \<and> expr_type EA = expr_type EA
            \<and> queue_context example_api ` set (queue VF) \<subseteq> queue_context example_api ` set (queue VF)"
    by simp
  from main [THEN conjunct2, THEN conjunct2, THEN conjunct1, rule_format, OF h3]
  have "builds (fst (assign_expr example_api ?st2 VF EA)) = builds ?st2" by simp
  with b have b3: "builds (fst (assign_expr example_api ?st2 VF EA)) = builds ?st1" by simp
  from new(1) new' ok ok2 cnt b b3 st1 show ?thesis by simp
qed

text \<open>
  C4 as stated does not hold. With a cache keyed by expression type and context alone:
  the same expression assigned in the same context to a \<open>float\<close> destination and then
  to a \<open>double\<close> destination with the same queues and the same partition is compiled
  twice, once for each destination element type. And without the condition that the
  first assignment returns: when the build fails, the same key is built again by the
  next assignment.
\<close>

theorem compiled_once_counterexample:
  "snd (assign_expr example_api empty_engine VF EA) = None
   \<and> map fst (builds (fst (assign_expr example_api empty_engine VF EA)))
       = [(''float'', BinaryT (VecT ''float'') (CHR ''+'') (ScalT ''int''), 0)]
   \<and> snd (assign_expr example_api (fst (assign_expr example_api empty_engine VF EA)) VE EA) = None
   \<and> map fst (builds (fst (assign_expr example_api
         (fst (assign_expr example_api empty_engine VF EA)) VE EA)))
       = [(''float'', BinaryT (VecT ''float'') (CHR ''+'') (ScalT ''int''), 0),
          (''double'', BinaryT (VecT ''float'') (CHR ''+'') (ScalT ''int''), 0)]
   \<and> snd (assign_expr FAIL (empty_engine :: int engine) VF EA) = Some DeviceError
   \<and> build_count (fst (assign_expr FAIL (fst (assign_expr FAIL empty_engine VF EA)) VF EA))
        (''float'', BinaryT (VecT ''float'') (CHR ''+'') (ScalT ''int''), 0) = 2"
  by (simp add: assign_expr_def compile_for_def example_api_def empty_engine_def cat_names_def
        Let_def upt_rec build_count_def)

text \<open>
  C5. Each of \<open>+=\<close>, \<open>-=\<close>, \<open>*=\<close>, \<open>/=\<close> is the assignment of the corresponding
  binary expression over the destination and the operand: the same state transformer
  as \<open>dst = dst OP expr\<close>, through \<open>assign_expr\<close> and nothing else.
\<close>

theorem accumulation_is_assignment:
  "operator_plus_assign api st dst expr = accumulate_spec (CHR ''+'') api st dst expr
   \<and> operator_minus_assign api st dst expr = accumulate_spec (CHR ''-'') api st dst expr
   \<and> operator_times_assign api st dst expr = accumulate_spec (CHR ''*'') api st dst expr
   \<and> operator_divide_assign api st dst expr = accumulate_spec (CHR ''/'') api st dst expr
   \<and> operator_plus_assign api st dst expr = assign_expr api st dst (operator_plus (Vec dst) expr)
   \<and> operator_minus_assign api st dst expr = assign_expr api st dst (operator_minus (Vec dst) expr)
   \<and> operator_times_assign api st dst expr = assign_expr api st dst (operator_times (Vec dst) expr)
   \<and> operator_divide_assign api st dst expr = assign_expr api st dst (operator_divide (Vec dst) expr)"
  by (simp add: operator_plus_assign_def operator_minus_assign_def operator_times_assign_def
      operator_divide_assign_def accumulate_spec_def operator_plus_def operator_minus_def
      operator_times_def operator_divide_def)

theorem accumulation_is_assignment_witness:
  "operator_plus_assign example_api (empty_engine :: int engine) VG (Scal ''int'' 7)
     = assign_expr example_api empty_engine VG EB
   \<and> launches (fst (operator_plus_assign example_api (empty_engine :: int engine) VG (Scal ''int'' 7)))
     = [Launch 1 1 [ArgSize 4, ArgBuffer 3, ArgBuffer 3, ArgScalar 7] 64 64]
   \<and> map fst (builds (fst (operator_plus_assign example_api (empty_engine :: int engine) VG
         (Scal ''int'' 7))))
     = [KG]"
proof -
  have "launches (fst (assign_expr example_api (empty_engine :: int engine) VG EB))
         = [Launch 1 1 [ArgSize 4, ArgBuffer 3, ArgBuffer 3, ArgScalar 7] 64 64]
      \<and> map fst (builds (fst (assign_expr example_api (empty_engine :: int engine) VG EB))) = [KG]"
    by (simp add: assign_expr_def compile_for_def example_api_def empty_engine_def cat_names_def
        Let_def alignup_def)
  moreover have "operator_plus_assign example_api (empty_engine :: int engine) VG (Scal ''int'' 7)
     = assign_expr example_api empty_engine VG EB"
    using accumulation_is_assignment [of example_api "empty_engine :: int engine" VG "Scal ''int'' 7",
        THEN conjunct2, THEN conjunct2, THEN conjunct2, THEN conjunct2, THEN conjunct1]
    by (simp only: operator_plus_def)
  ultimately show ?thesis by (simp only: simp_thms)
qed

lemma compile_loop_attempts:
  assumes "\<not> compiled st (T, expr_type e, queue_context api q)"
    and "context_devices api (queue_context api q) = dev0 # devs"
    and "kernel_name e = Inr name"
  shows "\<exists>rest. builds (fst (compile_loop api T e st (q # qs)))
     = builds st @ ((T, expr_type e, queue_context api q),
                    kernel_source api T e name (device_is_cpu api dev0)) # rest"
proof -
  obtain st1 r1 where c: "compile_for api T e st q = (st1, r1)" by (cases "compile_for api T e st q")
  from compile_for_attempts [OF assms] c
  have b1: "builds st1 = builds st @ [((T, expr_type e, queue_context api q),
                    kernel_source api T e name (device_is_cpu api dev0))]" by simp
  show ?thesis
  proof (cases r1)
    case (Some err)
    with c b1 show ?thesis by simp
  next
    case None
    obtain st' r where l: "compile_loop api T e st1 qs = (st', r)"
      by (cases "compile_loop api T e st1 qs")
    from compile_loop_keeps [OF l] obtain new where "builds st' = builds st1 @ new" by blast
    with None c l b1 show ?thesis by simp
  qed
qed

text \<open>
  C7. A compiled flag that an assignment sets stands for a successful \<open>build_sources\<close>
  and a successful kernel construction, whose kernel is in the cache. When the build (or
  the kernel construction) for a key fails, the key is still not compiled after the
  assignment; when it is the key of the destination's first queue, the assignment
  returns the error with the cache as it was; and an assignment that finds this key not
  compiled calls \<open>build_sources\<close> for it again.
\<close>

theorem failed_build_leaves_not_compiled:
  fixes e :: "'c expr"
  shows
  "(compiled (fst (assign_expr api st v e)) k \<and> \<not> compiled st k \<longrightarrow>
      (\<exists>c dev0 devs name p kn.
          k = (vtype v, expr_type e, c) \<and> context_devices api c = dev0 # devs
          \<and> kernel_name e = Inr name
          \<and> build_sources api c (kernel_source api (vtype v) e name (device_is_cpu api dev0)) = Inr p
          \<and> create_kernel api p name = Inr kn
          \<and> kernel (fst (assign_expr api st v e)) k = Some kn))
   \<and> (\<not> compiled st (vtype v, expr_type e, c) \<and> context_devices api c = dev0 # devs
        \<and> kernel_name e = Inr name
        \<and> (build_sources api c (kernel_source api (vtype v) e name (device_is_cpu api dev0)) = Inl err
            \<or> (\<exists>p. build_sources api c (kernel_source api (vtype v) e name (device_is_cpu api dev0)) = Inr p
                  \<and> create_kernel api p name = Inl err))
      \<longrightarrow> \<not> compiled (fst (assign_expr api st v e)) (vtype v, expr_type e, c))
   \<and> (queue v = q # qs \<and> queue_context api q = c
        \<and> \<not> compiled st (vtype v, expr_type e, c) \<and> context_devices api c = dev0 # devs
        \<and> kernel_name e = Inr name
        \<and> (build_sources api c (kernel_source api (vtype v) e name (device_is_cpu api dev0)) = Inl err
            \<or> (\<exists>p. build_sources api c (kernel_source api (vtype v) e name (device_is_cpu api dev0)) = Inr p
                  \<and> create_kernel api p name = Inl err))
      \<longrightarrow> assign_expr api st v e
            = (st\<lparr>builds := builds st @ [((vtype v, expr_type e, c),
                   kernel_source api (vtype v) e name (device_is_cpu api dev0))]\<rparr>, Some err))
   \<and> (queue v = q # qs \<and> queue_context api q = c
        \<and> \<not> compiled st (vtype v, expr_type e, c) \<and> context_devices api c = dev0 # devs
        \<and> kernel_name e = Inr name
      \<longrightarrow> (\<exists>rest. builds (fst (assign_expr api st v e))
            = builds st @ ((vtype v, expr_type e, c),
                   kernel_source api (vtype v) e name (device_is_cpu api dev0)) # rest))"
proof -
  obtain s1 r1 where c1: "compile_loop api (vtype v) e st (queue v) = (s1, r1)"
    and eqs: "compiled (fst (assign_expr api st v e)) = compiled s1"
      "kernel (fst (assign_expr api st v e)) = kernel s1"
      "builds (fst (assign_expr api st v e)) = builds s1"
    by (rule assign_expr_cache)
  have a: "\<exists>c dev0 devs name p kn.
          k = (vtype v, expr_type e, c) \<and> context_devices api c = dev0 # devs
          \<and> kernel_name e = Inr name
          \<and> build_sources api c (kernel_source api (vtype v) e name (device_is_cpu api dev0)) = Inr p
          \<and> create_kernel api p name = Inr kn
          \<and> kernel (fst (assign_expr api st v e)) k = Some kn"
    if "compiled (fst (assign_expr api st v e)) k" "\<not> compiled st k" for k
    using compile_loop_newly_compiled [OF c1, of k] that by (simp add: eqs)
  have b: "\<not> compiled (fst (assign_expr api st v e)) (vtype v, expr_type e, c)"
    if h: "\<not> compiled st (vtype v, expr_type e, c)" "context_devices api c = dev0 # devs"
      "kernel_name e = Inr name"
      "build_sources api c (kernel_source api (vtype v) e name (device_is_cpu api dev0)) = Inl err
       \<or> (\<exists>p. build_sources api c (kernel_source api (vtype v) e name (device_is_cpu api dev0)) = Inr p
             \<and> create_kernel api p name = Inl err)"
  proof
    assume "compiled (fst (assign_expr api st v e)) (vtype v, expr_type e, c)"
    from a [OF this h(1)] h(2,3,4) show False by auto
  qed
  have c: "assign_expr api st v e
            = (st\<lparr>builds := builds st @ [((vtype v, expr_type e, c),
                   kernel_source api (vtype v) e name (device_is_cpu api dev0))]\<rparr>, Some err)"
    if h: "queue v = q # qs" "queue_context api q = c"
      "\<not> compiled st (vtype v, expr_type e, c)" "context_devices api c = dev0 # devs"
      "kernel_name e = Inr name"
      "build_sources api c (kernel_source api (vtype v) e name (device_is_cpu api dev0)) = Inl err
       \<or> (\<exists>p. build_sources api c (kernel_source api (vtype v) e name (device_is_cpu api dev0)) = Inr p
             \<and> create_kernel api p name = Inl err)"
  proof -
    from h have "compile_for api (vtype v) e st q
     = (st\<lparr>builds := builds st @ [((vtype v, expr_type e, queue_context api q),
                                     kernel_source api (vtype v) e name (device_is_cpu api dev0))]\<rparr>,
        Some err)"
      by (intro compile_for_build_fails) auto
    with h(1,2) show ?thesis by (simp add: assign_expr_def)
  qed
  have d: "\<exists>rest. builds (fst (assign_expr api st v e))
            = builds st @ ((vtype v, expr_type e, c),
                   kernel_source api (vtype v) e name (device_is_cpu api dev0)) # rest"
    if h: "queue v = q # qs" "queue_context api q = c"
      "\<not> compiled st (vtype v, expr_type e, c)" "context_devices api c = dev0 # devs"
      "kernel_name e = Inr name"
  proof -
    from h have "\<exists>rest. builds (fst (compile_loop api (vtype v) e st (q # qs)))
     = builds st @ ((vtype v, expr_type e, queue_context api q),
                    kernel_source api (vtype v) e name (device_is_cpu api dev0)) # rest"
      by (intro compile_loop_attempts) auto
    with h(1,2) c1 eqs(3) show ?thesis by simp
  qed
  from a b c d show ?thesis by blast
qed


theorem failed_build_leaves_not_compiled_witness:
  "assign_expr FAIL (empty_engine :: int engine) VG EB
     = (empty_engine\<lparr>builds := [(KG, kernel_source FAIL ''float'' EB ''pvc'' True)]\<rparr>,
        Some DeviceError)
   \<and> \<not> compiled (fst (assign_expr FAIL (empty_engine :: int engine) VG EB)) KG
   \<and> map fst (builds (fst (assign_expr example_api
         (fst (assign_expr FAIL (empty_engine :: int engine) VG EB)) VG EB))) = [KG, KG]
   \<and> compiled (fst (assign_expr example_api
         (fst (assign_expr FAIL (empty_engine :: int engine) VG EB)) VG EB)) KG"
proof -
  let ?st = "empty_engine :: int engine"
  have hyp: "queue VG = 1 # [] \<and> queue_context FAIL 1 = 0
        \<and> \<not> compiled ?st (vtype VG, expr_type EB, 0) \<and> context_devices FAIL 0 = 0 # []
        \<and> kernel_name EB = Inr ''pvc''
        \<and> (build_sources FAIL 0 (kernel_source FAIL (vtype VG) EB ''pvc'' (device_is_cpu FAIL 0))
              = Inl DeviceError
            \<or> (\<exists>p. build_sources FAIL 0 (kernel_source FAIL (vtype VG) EB ''pvc'' (device_is_cpu FAIL 0)) = Inr p
                  \<and> create_kernel FAIL p ''pvc'' = Inl DeviceError))"
    by (simp add: example_api_def empty_engine_def cat_names_def)
  from failed_build_leaves_not_compiled [of FAIL ?st VG EB KG 0 0 "[]" "''pvc''" DeviceError 1 "[]",
      THEN conjunct2, THEN conjunct2, THEN conjunct1, rule_format, OF hyp]
  have r: "assign_expr FAIL ?st VG EB
     = (?st\<lparr>builds := [(KG, kernel_source FAIL ''float'' EB ''pvc'' True)]\<rparr>, Some DeviceError)"
    by (simp add: example_api_def empty_engine_def)
  have nc: "\<not> compiled (fst (assign_expr FAIL ?st VG EB)) KG"
    unfolding r by (simp add: empty_engine_def)
  have retry: "map fst (builds (fst (assign_expr example_api
         (?st\<lparr>builds := [(KG, kernel_source FAIL ''float'' EB ''pvc'' True)]\<rparr>) VG EB))) = [KG, KG]
    \<and> compiled (fst (assign_expr example_api
         (?st\<lparr>builds := [(KG, kernel_source FAIL ''float'' EB ''pvc'' True)]\<rparr>) VG EB)) KG"
    by (simp add: assign_expr_def compile_for_def example_api_def empty_engine_def cat_names_def
        Let_def upt_rec)
  from r nc retry show ?thesis by simp
qed

end
